theory Spec2Isabelle
  imports Main
begin

section \<open>Strings and the keyword predicate\<close>

text \<open>
  A display name is a \<^typ>\<open>string\<close>. \<open>toLowerCase\<close> maps the letters A-Z to a-z and
  leaves every other character as it is (case mapping beyond ASCII is not modelled; the
  configured keyword is ASCII).
\<close>

definition toLowerChar :: "char \<Rightarrow> char" where
  "toLowerChar c =
     (if (65::nat) \<le> of_char c \<and> of_char c \<le> (90::nat)
      then char_of (of_char c + (32::nat)) else c)"

definition toLowerCase :: "string \<Rightarrow> string" where
  "toLowerCase s = map toLowerChar s"

fun startsWith :: "string \<Rightarrow> string \<Rightarrow> bool" where
  "startsWith s [] = True"
| "startsWith [] (c # cs) = False"
| "startsWith (x # xs) (c # cs) = (x = c \<and> startsWith xs cs)"

fun endsWith :: "string \<Rightarrow> string \<Rightarrow> bool" where
  "endsWith s suffix = startsWith (rev s) (rev suffix)"

text \<open>\<open>String.prototype.includes\<close>: the argument occurs as a contiguous substring.\<close>

fun includes_str :: "string \<Rightarrow> string \<Rightarrow> bool" where
  "includes_str [] sub = startsWith [] sub"
| "includes_str (x # xs) sub = (startsWith (x # xs) sub \<or> includes_str xs sub)"

text \<open>\<open>config.whatsapp.targetKeyword\<close>.\<close>

definition targetKeyword :: string where
  "targetKeyword = ''neol''"

text \<open>
  \<open>GroupService.isTargetGroup\<close>. The argument is \<open>None\<close> when the name is absent
  (\<open>undefined\<close> or \<open>null\<close>); an absent and an empty name are both falsy.
\<close>

fun isTargetGroup :: "string option \<Rightarrow> bool" where
  "isTargetGroup None = False"
| "isTargetGroup (Some groupName) =
     (if groupName = [] then False
      else includes_str (toLowerCase groupName) targetKeyword)"

section \<open>The document store and the process state\<close>

record group_doc =
  groupId :: string
  isMonitored :: bool
  name :: "string option"
  updatedAt :: nat

record user_doc =
  phoneNumber :: string
  u_groupId :: string
  isActive :: bool
  u_updatedAt :: nat

datatype level = Info | Warn | Error | Success

datatype error = StoreError | TransportError

text \<open>
  What a handler does besides changing the collections: log lines (by level), the
  position of every document written in either collection, messages sent, and the
  reconnect bookkeeping of the client.
\<close>

datatype effect =
    Log level
  | UserWritten nat
  | GroupWritten nat
  | MessageSent string
  | AuthStateCleared
  | ReconnectScheduled nat

text \<open>
  Both collections are lists in insertion order. Documents are appended and updated in
  place, never deleted, so a document's position is its identity (\<open>_id\<close>).
  \<open>faults\<close> is the schedule of the store: each store call consumes its head, and
  raises when the head is \<open>True\<close>, changing neither collection; the empty schedule
  means every call succeeds. \<open>clock\<close> is what \<open>new Date()\<close> reads; every reading
  advances it. \<open>authDir\<close> is the directory of the session credentials as
  \<open>clearAuthState\<close> finds it: missing, with files that can be removed, or with files
  whose removal raises.
\<close>

datatype auth_dir = Missing | Removable | Locked

record state =
  groups :: "group_doc list"
  users :: "user_doc list"
  monitoredGroupsCache :: "string set"
  clock :: nat
  faults :: "bool list"
  trace :: "effect list"
  reconnectAttempts :: nat
  authDir :: auth_dir

datatype 'a outcome = Returns 'a state | Throws error state

type_synonym 'a action = "state \<Rightarrow> 'a outcome"

definition returnM :: "'a \<Rightarrow> 'a action" where
  "returnM x s = Returns x s"

definition throwM :: "error \<Rightarrow> 'a action" where
  "throwM e s = Throws e s"

definition bindM :: "'a action \<Rightarrow> ('a \<Rightarrow> 'b action) \<Rightarrow> 'b action" where
  "bindM m f s = (case m s of Returns x s' \<Rightarrow> f x s' | Throws e s' \<Rightarrow> Throws e s')"

definition tryCatch :: "'a action \<Rightarrow> (error \<Rightarrow> 'a action) \<Rightarrow> 'a action" where
  "tryCatch m h s = (case m s of Returns x s' \<Rightarrow> Returns x s' | Throws e s' \<Rightarrow> h e s')"

fun forEach :: "'a list \<Rightarrow> ('a \<Rightarrow> unit action) \<Rightarrow> unit action" where
  "forEach [] body = returnM ()"
| "forEach (x # xs) body = bindM (body x) (\<lambda>_. forEach xs body)"

fun final :: "'a outcome \<Rightarrow> state" where
  "final (Returns x s) = s"
| "final (Throws e s) = s"

definition emit :: "effect \<Rightarrow> unit action" where
  "emit ev s = Returns () (s\<lparr>trace := trace s @ [ev]\<rparr>)"

definition logger :: "level \<Rightarrow> unit action" where
  "logger l = emit (Log l)"

definition new_Date :: "nat action" where
  "new_Date s = Returns (clock s) (s\<lparr>clock := Suc (clock s)\<rparr>)"

definition store_call :: "unit action" where
  "store_call s =
     (case faults s of
        [] \<Rightarrow> Returns () s
      | f # fs \<Rightarrow> if f then Throws StoreError (s\<lparr>faults := fs\<rparr>)
                  else Returns () (s\<lparr>faults := fs\<rparr>))"

fun first_index :: "('a \<Rightarrow> bool) \<Rightarrow> 'a list \<Rightarrow> nat option" where
  "first_index P [] = None"
| "first_index P (x # xs) = (if P x then Some 0 else map_option Suc (first_index P xs))"

subsection \<open>The Group collection\<close>

text \<open>\<open>Group.find({ isMonitored: true })\<close>.\<close>

definition Group_find_monitored :: "group_doc list action" where
  "Group_find_monitored =
     bindM store_call (\<lambda>_ s. Returns (filter isMonitored (groups s)) s)"

text \<open>
  \<open>Group.findOneAndUpdate({ groupId }, { groupId, isMonitored: true, name, updatedAt },
  { upsert: true })\<close>. A key whose value is \<open>undefined\<close> is left out of the update,
  so the stored name changes only when a name is supplied.
\<close>

definition Group_upsert_monitored :: "string \<Rightarrow> string option \<Rightarrow> nat \<Rightarrow> unit action" where
  "Group_upsert_monitored gid groupName t =
     bindM store_call (\<lambda>_ s.
       case first_index (\<lambda>d. groupId d = gid) (groups s) of
         None \<Rightarrow>
           emit (GroupWritten (length (groups s)))
             (s\<lparr>groups := groups s @
                [\<lparr>groupId = gid, isMonitored = True, name = groupName, updatedAt = t\<rparr>]\<rparr>)
       | Some i \<Rightarrow>
           emit (GroupWritten i)
             (s\<lparr>groups := (groups s)[i := (groups s ! i)
                \<lparr>groupId := gid, isMonitored := True,
                 name := (case groupName of None \<Rightarrow> name (groups s ! i) | Some n \<Rightarrow> Some n),
                 updatedAt := t\<rparr>]\<rparr>))"

text \<open>
  \<open>Group.findOneAndUpdate({ groupId }, { isMonitored: false })\<close>, no upsert. The
  schema is declared with \<open>timestamps: true\<close>, so the library refreshes
  \<open>updatedAt\<close> of the document it updates.
\<close>

definition Group_clear_monitored :: "string \<Rightarrow> nat \<Rightarrow> unit action" where
  "Group_clear_monitored gid t =
     bindM store_call (\<lambda>_ s.
       case first_index (\<lambda>d. groupId d = gid) (groups s) of
         None \<Rightarrow> Returns () s
       | Some i \<Rightarrow>
           emit (GroupWritten i)
             (s\<lparr>groups := (groups s)[i := (groups s ! i)
                \<lparr>isMonitored := False, updatedAt := t\<rparr>]\<rparr>))"

subsection \<open>The User (membership) collection\<close>

text \<open>\<open>User.find({ groupId })\<close>: the documents of the group, each with its \<open>_id\<close>.\<close>

definition User_find :: "string \<Rightarrow> (nat \<times> user_doc) list action" where
  "User_find gid =
     bindM store_call (\<lambda>_ s.
       Returns (filter (\<lambda>(i, u). u_groupId u = gid) (enumerate 0 (users s))) s)"

text \<open>
  \<open>User.findOneAndUpdate({ phoneNumber, groupId },
  { phoneNumber, groupId, isActive: true, updatedAt }, { upsert: true })\<close>.
\<close>

definition User_upsert_active :: "string \<Rightarrow> string \<Rightarrow> nat \<Rightarrow> unit action" where
  "User_upsert_active phone gid t =
     bindM store_call (\<lambda>_ s.
       case first_index (\<lambda>u. phoneNumber u = phone \<and> u_groupId u = gid) (users s) of
         None \<Rightarrow>
           emit (UserWritten (length (users s)))
             (s\<lparr>users := users s @
                [\<lparr>phoneNumber = phone, u_groupId = gid, isActive = True, u_updatedAt = t\<rparr>]\<rparr>)
       | Some i \<Rightarrow>
           emit (UserWritten i)
             (s\<lparr>users := (users s)[i := (users s ! i)
                \<lparr>phoneNumber := phone, u_groupId := gid, isActive := True,
                 u_updatedAt := t\<rparr>]\<rparr>))"

text \<open>\<open>User.findByIdAndUpdate(_id, { isActive: false, updatedAt })\<close>.\<close>

definition User_deactivate_by_id :: "nat \<Rightarrow> nat \<Rightarrow> unit action" where
  "User_deactivate_by_id i t =
     bindM store_call (\<lambda>_ s.
       if i < length (users s)
       then emit (UserWritten i)
              (s\<lparr>users := (users s)[i := (users s ! i)\<lparr>isActive := False, u_updatedAt := t\<rparr>]\<rparr>)
       else Returns () s)"

text \<open>
  \<open>User.findOneAndUpdate({ phoneNumber, groupId }, { isActive: false, updatedAt })\<close>,
  no upsert: nothing is written when no document matches.
\<close>

definition User_deactivate :: "string \<Rightarrow> string \<Rightarrow> nat \<Rightarrow> unit action" where
  "User_deactivate phone gid t =
     bindM store_call (\<lambda>_ s.
       case first_index (\<lambda>u. phoneNumber u = phone \<and> u_groupId u = gid) (users s) of
         None \<Rightarrow> Returns () s
       | Some i \<Rightarrow>
           emit (UserWritten i)
             (s\<lparr>users := (users s)[i := (users s ! i)\<lparr>isActive := False, u_updatedAt := t\<rparr>]\<rparr>))"

text \<open>\<open>User.countDocuments({ groupId })\<close> and \<open>User.countDocuments({ groupId, isActive: true })\<close>.\<close>

definition User_count :: "string \<Rightarrow> int action" where
  "User_count gid =
     bindM store_call (\<lambda>_ s.
       Returns (int (length (filter (\<lambda>u. u_groupId u = gid) (users s)))) s)"

definition User_count_active :: "string \<Rightarrow> int action" where
  "User_count_active gid =
     bindM store_call (\<lambda>_ s.
       Returns (int (length (filter (\<lambda>u. u_groupId u = gid \<and> isActive u) (users s)))) s)"

section \<open>GroupService\<close>

definition loadMonitoredGroups :: "unit action" where
  "loadMonitoredGroups =
     tryCatch
       (bindM Group_find_monitored (\<lambda>found s.
          logger Info (s\<lparr>monitoredGroupsCache := set (map groupId found)\<rparr>)))
       (\<lambda>e. bindM (logger Error) (\<lambda>_. throwM e))"

definition isMonitoredGroup :: "string \<Rightarrow> state \<Rightarrow> bool" where
  "isMonitoredGroup gid s = (gid \<in> monitoredGroupsCache s)"

definition addGroupToMonitored :: "string \<Rightarrow> string option \<Rightarrow> unit action" where
  "addGroupToMonitored gid groupName =
     tryCatch
       (bindM new_Date (\<lambda>t.
        bindM (Group_upsert_monitored gid groupName t) (\<lambda>_ s.
          if \<not> isMonitoredGroup gid s
          then logger Success (s\<lparr>monitoredGroupsCache := insert gid (monitoredGroupsCache s)\<rparr>)
          else logger Info s)))
       (\<lambda>e. bindM (logger Error) (\<lambda>_. throwM e))"

definition removeGroupFromMonitored :: "string \<Rightarrow> unit action" where
  "removeGroupFromMonitored gid =
     tryCatch
       (bindM new_Date (\<lambda>t.
        bindM (Group_clear_monitored gid t) (\<lambda>_ s.
          if isMonitoredGroup gid s
          then logger Info (s\<lparr>monitoredGroupsCache := monitoredGroupsCache s - {gid}\<rparr>)
          else Returns () s)))
       (\<lambda>e. bindM (logger Error) (\<lambda>_. throwM e))"

text \<open>
  The first loop of \<open>syncGroupMembers\<close>: every roster entry is recorded in
  \<open>processedMembers\<close> and upserted as active.
\<close>

fun upsertMembers :: "string \<Rightarrow> string list \<Rightarrow> string set \<Rightarrow> string set action" where
  "upsertMembers gid [] processedMembers = returnM processedMembers"
| "upsertMembers gid (phone # rest) processedMembers =
     bindM new_Date (\<lambda>t.
     bindM (User_upsert_active phone gid t) (\<lambda>_.
       upsertMembers gid rest (insert phone processedMembers)))"

text \<open>
  \<open>new Map(existingMembers.map(member => [member.phoneNumber, member]))\<close>: a later
  entry with the same key replaces the value and keeps the key's place.
\<close>

fun map_set :: "'k \<Rightarrow> 'v \<Rightarrow> ('k \<times> 'v) list \<Rightarrow> ('k \<times> 'v) list" where
  "map_set k v [] = [(k, v)]"
| "map_set k v (e # es) = (if fst e = k then (k, v) # es else e # map_set k v es)"

definition new_Map :: "('k \<times> 'v) list \<Rightarrow> ('k \<times> 'v) list" where
  "new_Map entries = foldl (\<lambda>m (k, v). map_set k v m) [] entries"

text \<open>
  The second loop of \<open>syncGroupMembers\<close>: an existing member that the roster lacks and
  that was active when read is marked inactive, by \<open>_id\<close>.
\<close>

fun deactivateMissing :: "(string \<times> nat \<times> user_doc) list \<Rightarrow> string set \<Rightarrow> unit action" where
  "deactivateMissing [] processedMembers = returnM ()"
| "deactivateMissing ((phone, i, member) # rest) processedMembers =
     (if phone \<notin> processedMembers \<and> isActive member
      then bindM new_Date (\<lambda>t.
           bindM (User_deactivate_by_id i t) (\<lambda>_.
             deactivateMissing rest processedMembers))
      else deactivateMissing rest processedMembers)"

definition syncGroupMembers :: "string \<Rightarrow> string list \<Rightarrow> unit action" where
  "syncGroupMembers gid members s =
     (if \<not> isMonitoredGroup gid s then logger Info s
      else tryCatch
        (bindM (User_find gid) (\<lambda>existingMembers.
         let existingMembersMap =
               new_Map (map (\<lambda>(i, member). (phoneNumber member, (i, member)))
                 existingMembers)
         in
         bindM (upsertMembers gid members {}) (\<lambda>processedMembers.
         bindM (deactivateMissing existingMembersMap processedMembers) (\<lambda>_.
           logger Success))))
        (\<lambda>e. bindM (logger Error) (\<lambda>_. throwM e)) s)"

definition handleMembersAdded :: "string \<Rightarrow> string list \<Rightarrow> unit action" where
  "handleMembersAdded gid members s =
     (if \<not> isMonitoredGroup gid s then Returns () s
      else tryCatch
        (bindM (forEach members (\<lambda>phone.
           bindM new_Date (\<lambda>t. User_upsert_active phone gid t))) (\<lambda>_.
           logger Success))
        (\<lambda>e. bindM (logger Error) (\<lambda>_. throwM e)) s)"

definition handleMembersRemoved :: "string \<Rightarrow> string list \<Rightarrow> unit action" where
  "handleMembersRemoved gid members s =
     (if \<not> isMonitoredGroup gid s then Returns () s
      else tryCatch
        (bindM (forEach members (\<lambda>phone.
           bindM new_Date (\<lambda>t. User_deactivate phone gid t))) (\<lambda>_.
           logger Success))
        (\<lambda>e. bindM (logger Error) (\<lambda>_. throwM e)) s)"

subsection \<open>The status report\<close>

record group_detail =
  detail_name :: string
  detail_id :: string
  containsTargetKeyword :: bool
  totalMembers :: int
  activeMembers :: int
  inactiveMembers :: int

record database_status =
  totalGroups :: int
  targetGroups :: int
  forceMonitoredGroups :: int
  groupDetails :: "group_detail list"

text \<open>JavaScript's \<open>a || b\<close> on an optional string: an absent or empty \<open>a\<close> gives \<open>b\<close>.\<close>

fun or_else :: "string option \<Rightarrow> string \<Rightarrow> string" where
  "or_else None d = d"
| "or_else (Some a) d = (if a = [] then d else a)"

text \<open>
  The loop of \<open>getDatabaseStatus\<close>; the accumulator holds \<open>targetGroups\<close>,
  \<open>forceMonitoredGroups\<close> and \<open>groupDetails\<close>.
\<close>

fun statusLoop ::
  "group_doc list \<Rightarrow> int \<times> int \<times> group_detail list \<Rightarrow> (int \<times> int \<times> group_detail list) action"
where
  "statusLoop [] acc = returnM acc"
| "statusLoop (g # rest) (target, forced, details) =
     bindM (User_count (groupId g)) (\<lambda>total.
     bindM (User_count_active (groupId g)) (\<lambda>active.
       statusLoop rest
         (if isTargetGroup (Some (or_else (name g) [])) then target + 1 else target,
          if isTargetGroup (Some (or_else (name g) [])) then forced else forced + 1,
          details @
            [\<lparr>detail_name = or_else (name g) ''Unknown group name'',
              detail_id = groupId g,
              containsTargetKeyword = isTargetGroup (Some (or_else (name g) [])),
              totalMembers = total,
              activeMembers = active,
              inactiveMembers = total - active\<rparr>])))"

definition getDatabaseStatus :: "database_status action" where
  "getDatabaseStatus =
     tryCatch
       (bindM Group_find_monitored (\<lambda>found.
        bindM (statusLoop found (0, 0, [])) (\<lambda>(target, forced, details).
          returnM \<lparr>totalGroups = int (length found), targetGroups = target,
                   forceMonitoredGroups = forced, groupDetails = details\<rparr>)))
       (\<lambda>e. bindM (logger Error) (\<lambda>_. throwM e))"

section \<open>WhatsAppClient\<close>

text \<open>
  The messaging client is outside the repository. A socket answers metadata queries and
  group enumeration (either may raise) and sends messages (\<open>sendMessage_ok\<close> tells
  whether sending to a chat succeeds).
\<close>

record group_metadata =
  subject :: string
  participants :: "string list"

record socket =
  groupMetadata :: "string \<Rightarrow> error + group_metadata"
  groupFetchAllParticipating :: "error + (string \<times> group_metadata) list"
  sendMessage_ok :: "string \<Rightarrow> bool"
  user :: "string option"

definition fetchAndMonitorTargetGroups :: "socket option \<Rightarrow> unit action" where
  "fetchAndMonitorTargetGroups sock =
     (case sock of
        None \<Rightarrow> logger Error
      | Some so \<Rightarrow>
          tryCatch
            (case groupFetchAllParticipating so of
               Inl e \<Rightarrow> throwM e
             | Inr response \<Rightarrow>
                 bindM (logger Info) (\<lambda>_.
                 forEach response (\<lambda>(gid, metadata).
                   if isTargetGroup (Some (subject metadata))
                   then bindM (logger Info) (\<lambda>_.
                        bindM (addGroupToMonitored gid (Some (subject metadata))) (\<lambda>_.
                        bindM (syncGroupMembers gid (participants metadata)) (\<lambda>_.
                          logger Success)))
                   else returnM ())))
            (\<lambda>e. logger Error))"

definition getGroupMetadata :: "socket option \<Rightarrow> string \<Rightarrow> group_metadata option action" where
  "getGroupMetadata sock gid =
     (case sock of
        None \<Rightarrow> bindM (logger Error) (\<lambda>_. returnM None)
      | Some so \<Rightarrow>
          (case groupMetadata so gid of
             Inl e \<Rightarrow> bindM (logger Error) (\<lambda>_. returnM None)
           | Inr metadata \<Rightarrow> returnM (Some metadata)))"

definition sendMessage :: "socket option \<Rightarrow> string \<Rightarrow> unit action" where
  "sendMessage sock to =
     (case sock of
        None \<Rightarrow> logger Error
      | Some so \<Rightarrow> if sendMessage_ok so to then emit (MessageSent to) else logger Error)"

section \<open>WhatsAppController\<close>

datatype connection = Open | Close | Connecting

record connection_update =
  connection :: "connection option"
  statusCode :: "nat option"
  qr :: "string option"

datatype participant_action = Add | Remove | Promote | Demote

record group_update =
  update_id :: "string option"
  update_subject :: "string option"

record new_group =
  new_id :: string
  new_subject :: "string option"
  new_participants :: "string list option"

record message_content =
  conversation :: "string option"
  extendedText :: "string option"

record message =
  content :: "message_content option"
  remoteJid :: "string option"
  fromMe :: bool

definition handleConnectionUpdate :: "socket option \<Rightarrow> connection_update \<Rightarrow> unit action" where
  "handleConnectionUpdate sock update =
     bindM (if or_else (qr update) [] \<noteq> [] then logger Info else returnM ()) (\<lambda>_.
       if connection update = Some Open
       then bindM (logger Success) (\<lambda>_.
            bindM (case sock of
                     None \<Rightarrow> returnM ()
                   | Some so \<Rightarrow> (case user so of None \<Rightarrow> returnM () | Some u \<Rightarrow> logger Info)) (\<lambda>_.
            bindM (logger Info) (\<lambda>_.
              fetchAndMonitorTargetGroups sock)))
       else returnM ())"

definition applyParticipantAction :: "string \<Rightarrow> string list \<Rightarrow> participant_action \<Rightarrow> unit action" where
  "applyParticipantAction gid members act =
     (if act = Add then handleMembersAdded gid members
      else if act = Remove then handleMembersRemoved gid members
      else returnM ())"

definition handleGroupParticipantsUpdate ::
  "socket option \<Rightarrow> string \<Rightarrow> string list \<Rightarrow> participant_action \<Rightarrow> unit action"
where
  "handleGroupParticipantsUpdate sock gid members act s =
     (if \<not> isMonitoredGroup gid s
      then tryCatch
        (bindM (getGroupMetadata sock gid) (\<lambda>found.
           case found of
             None \<Rightarrow> returnM ()
           | Some metadata \<Rightarrow>
               if isTargetGroup (Some (subject metadata))
               then bindM (logger Info) (\<lambda>_.
                    bindM (addGroupToMonitored gid (Some (subject metadata))) (\<lambda>_.
                    bindM (syncGroupMembers gid (participants metadata)) (\<lambda>_.
                    bindM (logger Success) (\<lambda>_.
                      applyParticipantAction gid members act))))
               else logger Info))
        (\<lambda>e. logger Error) s
      else bindM (logger Info) (\<lambda>_. applyParticipantAction gid members act) s)"

definition handleGroupUpdate :: "socket option \<Rightarrow> group_update \<Rightarrow> unit action" where
  "handleGroupUpdate sock update =
     (case update_id update of
        None \<Rightarrow> returnM ()
      | Some gid \<Rightarrow>
          if gid = [] then returnM ()
          else
            bindM (\<lambda>s. if isMonitoredGroup gid s then logger Info s else Returns () s) (\<lambda>_.
              if or_else (update_subject update) [] = [] then returnM ()
              else (\<lambda>s.
                if isMonitoredGroup gid s
                then bindM (addGroupToMonitored gid (update_subject update)) (\<lambda>_.
                     bindM (logger Info) (\<lambda>_.
                       if \<not> isTargetGroup (update_subject update)
                       then logger Warn else returnM ())) s
                else if isTargetGroup (update_subject update)
                then bindM (logger Info) (\<lambda>_.
                     tryCatch
                       (bindM (getGroupMetadata sock gid) (\<lambda>found.
                          case found of
                            None \<Rightarrow> returnM ()
                          | Some metadata \<Rightarrow>
                              bindM (addGroupToMonitored gid (update_subject update)) (\<lambda>_.
                              bindM (syncGroupMembers gid (participants metadata)) (\<lambda>_.
                                logger Success))))
                       (\<lambda>e. logger Error)) s
                else Returns () s)))"

definition handleGroupsUpdate :: "socket option \<Rightarrow> group_update list \<Rightarrow> unit action" where
  "handleGroupsUpdate sock updates = forEach updates (handleGroupUpdate sock)"

definition handleGroupsUpsert :: "socket option \<Rightarrow> new_group list \<Rightarrow> unit action" where
  "handleGroupsUpsert sock newGroups =
     forEach newGroups (\<lambda>g.
       bindM (logger Info) (\<lambda>_.
         if isTargetGroup (new_subject g)
         then bindM (logger Info) (\<lambda>_.
              bindM (addGroupToMonitored (new_id g) (new_subject g)) (\<lambda>_.
                case new_participants g of
                  None \<Rightarrow> returnM ()
                | Some members \<Rightarrow>
                    if members \<noteq> []
                    then bindM (syncGroupMembers (new_id g) members) (\<lambda>_. logger Success)
                    else returnM ()))
         else logger Info))"

definition handleHiCommand :: "socket option \<Rightarrow> string \<Rightarrow> unit action" where
  "handleHiCommand sock jid =
     tryCatch
       (bindM (getGroupMetadata sock jid) (\<lambda>found.
          case found of
            None \<Rightarrow> returnM ()
          | Some metadata \<Rightarrow>
              bindM (logger Info) (\<lambda>_.
                if isTargetGroup (Some (subject metadata))
                then bindM (logger Info) (\<lambda>_.
                     bindM (addGroupToMonitored jid (Some (subject metadata))) (\<lambda>_.
                     bindM (logger Info) (\<lambda>_.
                     bindM (syncGroupMembers jid (participants metadata)) (\<lambda>_.
                       logger Success))))
                else logger Info)))
       (\<lambda>e. logger Error)"

definition handleSyncCommand :: "socket option \<Rightarrow> string \<Rightarrow> unit action" where
  "handleSyncCommand sock jid =
     tryCatch
       (bindM (getGroupMetadata sock jid) (\<lambda>found.
          case found of
            None \<Rightarrow> returnM ()
          | Some metadata \<Rightarrow>
              bindM (logger Info) (\<lambda>_.
              bindM (addGroupToMonitored jid (Some (subject metadata))) (\<lambda>_.
              bindM (logger Info) (\<lambda>_.
              bindM (syncGroupMembers jid (participants metadata)) (\<lambda>_.
                logger Success))))))
       (\<lambda>e. logger Error)"

text \<open>
  The report is logged and sent as text; \<open>formatDatabaseStatus\<close>, which renders it, is
  not modelled: the trace records that a message went to the chat.
\<close>

definition handleCheckCommand :: "socket option \<Rightarrow> string \<Rightarrow> unit action" where
  "handleCheckCommand sock jid =
     tryCatch
       (bindM getDatabaseStatus (\<lambda>status.
        bindM (logger Info) (\<lambda>_.
          if jid \<noteq> [] then sendMessage sock jid else returnM ())))
       (\<lambda>e. logger Error)"

text \<open>\<open>isJidGroup\<close> of the messaging library: a group's identifier ends in \<open>@g.us\<close>.\<close>

definition isJidGroup :: "string \<Rightarrow> bool" where
  "isJidGroup jid = endsWith jid ''@g.us''"

definition handleMessage :: "socket option \<Rightarrow> message \<Rightarrow> unit action" where
  "handleMessage sock m =
     (case content m of
        None \<Rightarrow> returnM ()
      | Some c \<Rightarrow>
          if or_else (remoteJid m) [] = [] then returnM ()
          else
            bindM (if fromMe m \<and> or_else (conversation c) (or_else (extendedText c) []) = ''Hi!''
                      \<and> isJidGroup (or_else (remoteJid m) [])
                   then bindM (logger Info) (\<lambda>_. handleHiCommand sock (or_else (remoteJid m) []))
                   else returnM ()) (\<lambda>_.
            bindM (if fromMe m \<and> or_else (conversation c) (or_else (extendedText c) []) = ''sync''
                      \<and> isJidGroup (or_else (remoteJid m) [])
                   then bindM (logger Info) (\<lambda>_. handleSyncCommand sock (or_else (remoteJid m) []))
                   else returnM ()) (\<lambda>_.
              if fromMe m \<and> or_else (conversation c) (or_else (extendedText c) []) = ''check''
              then bindM (logger Info) (\<lambda>_. handleCheckCommand sock (or_else (remoteJid m) []))
              else returnM ())))"

definition handleMessagesUpsert :: "socket option \<Rightarrow> message list \<Rightarrow> unit action" where
  "handleMessagesUpsert sock messages = forEach messages (handleMessage sock)"

section \<open>Event dispatch\<close>

datatype event =
    ConnectionUpdate connection_update
  | GroupParticipantsUpdate string "string list" participant_action
  | GroupsUpdate "group_update list"
  | GroupsUpsert "new_group list"
  | MessagesUpsert "message list"

text \<open>
  How a listener's callback ends: it completes, its promise is rejected with an error no
  handler caught, or the process exits.
\<close>

datatype dispatched = Completed state | Rejected error state | Exited nat state

fun settle :: "unit outcome \<Rightarrow> dispatched" where
  "settle (Returns x s) = Completed s"
| "settle (Throws e s) = Rejected e s"

text \<open>\<open>DisconnectReason.loggedOut\<close> of the messaging library, and \<open>MAX_RECONNECT_ATTEMPTS\<close>.\<close>

definition loggedOut :: nat where
  "loggedOut = 401"

definition MAX_RECONNECT_ATTEMPTS :: nat where
  "MAX_RECONNECT_ATTEMPTS = 10"

text \<open>
  \<open>WhatsAppAuth.clearAuthState\<close>: nothing when the directory is missing; otherwise
  the files are removed and the success is logged, or the removal raises and the error
  is logged.
\<close>

definition clearAuthState :: "unit action" where
  "clearAuthState s =
     (case authDir s of
        Missing \<Rightarrow> Returns () s
      | Removable \<Rightarrow> bindM (emit AuthStateCleared) (\<lambda>_. logger Info) s
      | Locked \<Rightarrow> logger Error s)"

text \<open>The reconnection logic that follows the handler of a connection event.\<close>

definition afterConnectionUpdate :: "connection_update \<Rightarrow> state \<Rightarrow> dispatched" where
  "afterConnectionUpdate update s =
     (if connection update = Some Close
      then if statusCode update = Some loggedOut
           then Exited 1 (final (bindM (logger Error) (\<lambda>_. clearAuthState) s))
           else if reconnectAttempts s < MAX_RECONNECT_ATTEMPTS
           then Completed
                  (final (bindM (logger Warn) (\<lambda>_.
                     emit (ReconnectScheduled (min (Suc (reconnectAttempts s) * 1000) 10000)))
                     (s\<lparr>reconnectAttempts := Suc (reconnectAttempts s)\<rparr>)))
           else Exited 1 (final (logger Error s))
      else if connection update = Some Open
      then Completed (s\<lparr>reconnectAttempts := 0\<rparr>)
      else Completed s)"

fun dispatch :: "socket option \<Rightarrow> event \<Rightarrow> state \<Rightarrow> dispatched" where
  "dispatch sock (ConnectionUpdate update) s =
     (case handleConnectionUpdate sock update s of
        Returns x s' \<Rightarrow> afterConnectionUpdate update s'
      | Throws e s' \<Rightarrow> Rejected e s')"
| "dispatch sock (GroupParticipantsUpdate gid members act) s =
     settle (handleGroupParticipantsUpdate sock gid members act s)"
| "dispatch sock (GroupsUpdate updates) s = settle (handleGroupsUpdate sock updates s)"
| "dispatch sock (GroupsUpsert newGroups) s = settle (handleGroupsUpsert sock newGroups s)"
| "dispatch sock (MessagesUpsert messages) s = settle (handleMessagesUpsert sock messages s)"

fun after :: "dispatched \<Rightarrow> state" where
  "after (Completed s) = s"
| "after (Rejected e s) = s"
| "after (Exited code s) = s"

text \<open>The group identifiers persisted with \<open>isMonitored = true\<close>.\<close>

definition persistedMonitored :: "state \<Rightarrow> string set" where
  "persistedMonitored s = set (map groupId (filter isMonitored (groups s)))"

section \<open>Auxiliary notions for stating the properties\<close>

definition member_key :: "user_doc \<Rightarrow> string \<times> string" where
  "member_key u = (phoneNumber u, u_groupId u)"

definition upserted :: "string \<Rightarrow> string set \<Rightarrow> user_doc list \<Rightarrow> user_doc list \<Rightarrow> bool" where
  "upserted g M us us' \<longleftrightarrow>
     length us \<le> length us'
     \<and> (\<forall>i<length us. member_key (us' ! i) = member_key (us ! i)
            \<and> (isActive (us ! i) \<longrightarrow> isActive (us' ! i))
            \<and> (\<not> (u_groupId (us ! i) = g \<and> phoneNumber (us ! i) \<in> M) \<longrightarrow> us' ! i = us ! i))
     \<and> (\<forall>i<length us'. length us \<le> i \<longrightarrow>
            u_groupId (us' ! i) = g \<and> phoneNumber (us' ! i) \<in> M \<and> isActive (us' ! i))"

definition same_store_but_users :: "state \<Rightarrow> state \<Rightarrow> bool" where
  "same_store_but_users s s' \<longleftrightarrow>
     groups s' = groups s \<and> monitoredGroupsCache s' = monitoredGroupsCache s
     \<and> faults s' = faults s \<and> reconnectAttempts s' = reconnectAttempts s"

definition unique_members :: "string \<Rightarrow> user_doc list \<Rightarrow> bool" where
  "unique_members g us \<longleftrightarrow>
     (\<forall>i<length us. \<forall>j<length us.
        u_groupId (us ! i) = g \<and> member_key (us ! i) = member_key (us ! j) \<longrightarrow> i = j)"

definition deactivation_targets :: "(string \<times> nat \<times> user_doc) list \<Rightarrow> string set \<Rightarrow> nat set" where
  "deactivation_targets es P = {i. \<exists>p d. (p, i, d) \<in> set es \<and> p \<notin> P \<and> isActive d}"

definition existing_entries :: "string \<Rightarrow> user_doc list \<Rightarrow> (string \<times> nat \<times> user_doc) list" where
  "existing_entries g us =
     map (\<lambda>(i, member). (phoneNumber member, (i, member)))
       (filter (\<lambda>(i, u). u_groupId u = g) (enumerate 0 us))"

text \<open>
  \<open>preserves I m\<close>: whatever way \<open>m\<close> ends (returning or throwing), the state it
  leaves satisfies \<open>I\<close> if the state it started from did.
\<close>

definition preserves :: "(state \<Rightarrow> bool) \<Rightarrow> 'a action \<Rightarrow> bool" where
  "preserves I m \<longleftrightarrow> (\<forall>s. I s \<longrightarrow> I (final (m s)))"

text \<open>
  \<open>users_untouched s s'\<close>: the User collection is the same in \<open>s'\<close> as in \<open>s\<close> and
  no write to it was issued in between.
\<close>

definition users_untouched :: "state \<Rightarrow> state \<Rightarrow> bool" where
  "users_untouched s s' \<longleftrightarrow>
     users s' = users s
     \<and> (\<exists>tr. trace s' = trace s @ tr \<and> (\<forall>i. UserWritten i \<notin> set tr))"

text \<open>
  \<open>registered g n t gs\<close>: the Group collection \<open>gs\<close> after the upsert of
  \<open>addGroupToMonitored g n\<close> at time \<open>t\<close>; \<open>without_time\<close> forgets a group
  document's timestamp.
\<close>

definition registered :: "string \<Rightarrow> string option \<Rightarrow> nat \<Rightarrow> group_doc list \<Rightarrow> group_doc list" where
  "registered g n t gs =
     (case first_index (\<lambda>d. groupId d = g) gs of
        None \<Rightarrow> gs @ [\<lparr>groupId = g, isMonitored = True, name = n, updatedAt = t\<rparr>]
      | Some i \<Rightarrow> gs[i := (gs ! i)\<lparr>groupId := g, isMonitored := True,
            name := (case n of None \<Rightarrow> name (gs ! i) | Some x \<Rightarrow> Some x), updatedAt := t\<rparr>])"

definition without_time :: "group_doc \<Rightarrow> group_doc" where
  "without_time d = d\<lparr>updatedAt := 0\<rparr>"

text \<open>
  A run of the registrar within one process: a sequence of mutations, each of which ends
  by returning or by throwing. \<open>cache_within_store\<close> is the invariant that every cached
  identifier is persisted as monitored.
\<close>

datatype mutation = AddGroup string "string option" | RemoveGroup string

fun mutate :: "mutation \<Rightarrow> unit action" where
  "mutate (AddGroup g n) = addGroupToMonitored g n"
| "mutate (RemoveGroup g) = removeGroupFromMonitored g"

fun run_mutations :: "mutation list \<Rightarrow> state \<Rightarrow> state" where
  "run_mutations [] s = s"
| "run_mutations (m # ms) s = run_mutations ms (final (mutate m s))"

definition cache_within_store :: "state \<Rightarrow> bool" where
  "cache_within_store s \<longleftrightarrow> monitoredGroupsCache s \<subseteq> persistedMonitored s"

text \<open>
  \<open>registry_only I\<close>: \<open>I\<close> looks at the Group collection and the in-memory set
  only. A \<open>handler_invariant\<close> is such a property that \<open>addGroupToMonitored\<close>
  preserves; \<open>monitoring_kept c p\<close> says that the in-memory set still contains \<open>c\<close> and
  the persisted monitored set still contains \<open>p\<close>.
\<close>

definition registry_only :: "(state \<Rightarrow> bool) \<Rightarrow> bool" where
  "registry_only I \<longleftrightarrow>
     (\<forall>s s'. groups s' = groups s \<and> monitoredGroupsCache s' = monitoredGroupsCache s
        \<longrightarrow> I s \<longrightarrow> I s')"

definition handler_invariant :: "(state \<Rightarrow> bool) \<Rightarrow> bool" where
  "handler_invariant I \<longleftrightarrow>
     registry_only I \<and> (\<forall>g n. preserves I (addGroupToMonitored g n))"

definition monitoring_kept :: "string set \<Rightarrow> string set \<Rightarrow> state \<Rightarrow> bool" where
  "monitoring_kept c p s \<longleftrightarrow> c \<subseteq> monitoredGroupsCache s \<and> p \<subseteq> persistedMonitored s"

text \<open>
  The status report as the specification words it: for every monitored group the number
  of its membership records, of the active ones and of the inactive ones, and whether the
  stored name satisfies the keyword predicate; the groups are counted by that
  classification. \<open>store_as_in s s'\<close>: both collections and the in-memory set are the
  same in \<open>s'\<close> as in \<open>s\<close>.
\<close>

definition detail_of :: "state \<Rightarrow> group_doc \<Rightarrow> group_detail" where
  "detail_of s d =
     \<lparr>detail_name = or_else (name d) ''Unknown group name'',
      detail_id = groupId d,
      containsTargetKeyword = isTargetGroup (name d),
      totalMembers = int (length [u \<leftarrow> users s. u_groupId u = groupId d]),
      activeMembers = int (length [u \<leftarrow> users s. u_groupId u = groupId d \<and> isActive u]),
      inactiveMembers = int (length [u \<leftarrow> users s. u_groupId u = groupId d \<and> \<not> isActive u])\<rparr>"

definition status_of :: "state \<Rightarrow> database_status" where
  "status_of s =
     \<lparr>totalGroups = int (length (filter isMonitored (groups s))),
      targetGroups =
        int (length [d \<leftarrow> filter isMonitored (groups s). isTargetGroup (name d)]),
      forceMonitoredGroups =
        int (length [d \<leftarrow> filter isMonitored (groups s). \<not> isTargetGroup (name d)]),
      groupDetails = map (detail_of s) (filter isMonitored (groups s))\<rparr>"

definition store_as_in :: "state \<Rightarrow> state \<Rightarrow> bool" where
  "store_as_in s s' \<longleftrightarrow>
     groups s' = groups s \<and> users s' = users s
     \<and> monitoredGroupsCache s' = monitoredGroupsCache s"

text \<open>\<open>never_throws m\<close>: from every state, \<open>m\<close> returns.\<close>

definition never_throws :: "'a action \<Rightarrow> bool" where
  "never_throws m \<longleftrightarrow> (\<forall>s. \<exists>x s'. m s = Returns x s')"

section \<open>Example stores\<close>

text \<open>
  A store that monitors one group and has no membership record for it, and the same
  store after member 111 has left the group.
\<close>

definition example_store :: state where
  "example_store =
     \<lparr>groups = [\<lparr>groupId = ''g1@g.us'', isMonitored = True, name = Some ''Neol Friends'',
                  updatedAt = 0\<rparr>],
      users = [\<lparr>phoneNumber = ''999'', u_groupId = ''other@g.us'', isActive = True,
                 u_updatedAt = 0\<rparr>],
      monitoredGroupsCache = {''g1@g.us''},
      clock = 1, faults = [], trace = [], reconnectAttempts = 0,
      authDir = Removable\<rparr>"

definition example_store_left :: state where
  "example_store_left =
     example_store\<lparr>users :=
       [\<lparr>phoneNumber = ''999'', u_groupId = ''other@g.us'', isActive = True, u_updatedAt = 0\<rparr>,
        \<lparr>phoneNumber = ''111'', u_groupId = ''g1@g.us'', isActive = False, u_updatedAt = 5\<rparr>,
        \<lparr>phoneNumber = ''222'', u_groupId = ''g1@g.us'', isActive = True, u_updatedAt = 3\<rparr>]\<rparr>"

text \<open>
  A store with one keyword-matching group (two active members, one inactive) and one
  force-monitored group without members.
\<close>

definition status_example :: state where
  "status_example =
     \<lparr>groups =
        [\<lparr>groupId = ''g1@g.us'', isMonitored = True, name = Some ''Neol Friends'',
           updatedAt = 0\<rparr>,
         \<lparr>groupId = ''g2@g.us'', isMonitored = True, name = Some ''Random Chat'',
           updatedAt = 1\<rparr>],
      users =
        [\<lparr>phoneNumber = ''111'', u_groupId = ''g1@g.us'', isActive = True, u_updatedAt = 2\<rparr>,
         \<lparr>phoneNumber = ''222'', u_groupId = ''g1@g.us'', isActive = True, u_updatedAt = 3\<rparr>,
         \<lparr>phoneNumber = ''333'', u_groupId = ''g1@g.us'', isActive = False, u_updatedAt = 4\<rparr>],
      monitoredGroupsCache = {''g1@g.us'', ''g2@g.us''},
      clock = 5, faults = [], trace = [], reconnectAttempts = 0,
      authDir = Removable\<rparr>"

text \<open>
  A socket that knows the group \<open>g2@g.us\<close>, named "Random Chat", and a self-authored
  \<open>sync\<close> message sent in that group.
\<close>

definition example_socket :: socket where
  "example_socket =
     \<lparr>groupMetadata =
        (\<lambda>jid. if jid = ''g2@g.us''
           then Inr \<lparr>subject = ''Random Chat'', participants = [''444'']\<rparr>
           else Inl TransportError),
      groupFetchAllParticipating = Inr [],
      sendMessage_ok = (\<lambda>jid. True),
      user = None\<rparr>"



section \<open>The keyword predicate\<close>

lemma startsWith_iff: "startsWith s sub \<longleftrightarrow> (\<exists>post. s = sub @ post)"
  by (induction s sub rule: startsWith.induct) auto

lemma includes_str_iff: "includes_str s sub \<longleftrightarrow> (\<exists>pre post. s = pre @ sub @ post)"
proof (induction s)
  case Nil
  then show ?case by (simp add: startsWith_iff)
next
  case (Cons x xs)
  show ?case
  proof
    assume "includes_str (x # xs) sub"
    then consider "startsWith (x # xs) sub" | "includes_str xs sub" by auto
    then show "\<exists>pre post. x # xs = pre @ sub @ post"
    proof cases
      case 1
      then obtain post where "x # xs = sub @ post" by (auto simp: startsWith_iff)
      then have "x # xs = [] @ sub @ post" by simp
      then show ?thesis by blast
    next
      case 2
      then obtain pre post where "xs = pre @ sub @ post" using Cons.IH by blast
      then have "x # xs = (x # pre) @ sub @ post" by simp
      then show ?thesis by blast
    qed
  next
    assume "\<exists>pre post. x # xs = pre @ sub @ post"
    then obtain pre post where e: "x # xs = pre @ sub @ post" by blast
    show "includes_str (x # xs) sub"
    proof (cases pre)
      case Nil
      with e have "startsWith (x # xs) sub" by (auto simp: startsWith_iff)
      then show ?thesis by simp
    next
      case (Cons p ps)
      with e have "xs = ps @ sub @ post" by simp
      then have "includes_str xs sub" using Cons.IH by blast
      then show ?thesis by simp
    qed
  qed
qed

lemma toLowerCase_append: "toLowerCase (a @ b) = toLowerCase a @ toLowerCase b"
  by (simp add: toLowerCase_def)

lemma toLowerCase_keyword: "toLowerCase targetKeyword = targetKeyword"
  by (simp add: toLowerCase_def targetKeyword_def toLowerChar_def)

lemma keyword_nonempty: "targetKeyword \<noteq> []"
  by (simp add: targetKeyword_def)

text \<open>
  C2. \<open>isTargetGroup\<close> holds exactly of the names whose lower-cased form contains
  the lower-cased keyword as a substring; it is false of an absent and of an empty name;
  and it holds of every name that contains the keyword in any letter case.
\<close>

theorem isTargetGroup_contract:
  "(isTargetGroup nm \<longleftrightarrow>
      (\<exists>n pre post. nm = Some n \<and> toLowerCase n = pre @ toLowerCase targetKeyword @ post))
   \<and> \<not> isTargetGroup None \<and> \<not> isTargetGroup (Some [])
   \<and> (\<forall>pre w post. toLowerCase w = toLowerCase targetKeyword
         \<longrightarrow> isTargetGroup (Some (pre @ w @ post)))"
proof (intro conjI allI impI)
  show "isTargetGroup nm \<longleftrightarrow>
      (\<exists>n pre post. nm = Some n \<and> toLowerCase n = pre @ toLowerCase targetKeyword @ post)"
  proof (cases nm)
    case None
    then show ?thesis by simp
  next
    case (Some n)
    show ?thesis
    proof (cases "n = []")
      case True
      with Some show ?thesis
        by (simp add: toLowerCase_keyword keyword_nonempty toLowerCase_def)
    next
      case False
      with Some show ?thesis
        by (simp add: includes_str_iff toLowerCase_keyword)
    qed
  qed
next
  show "\<not> isTargetGroup None" by simp
next
  show "\<not> isTargetGroup (Some [])" by simp
next
  fix pre w post
  assume w: "toLowerCase w = toLowerCase targetKeyword"
  then have "w \<noteq> []"
    using keyword_nonempty by (auto simp: toLowerCase_keyword toLowerCase_def)
  then have ne: "pre @ w @ post \<noteq> []" by simp
  have "toLowerCase (pre @ w @ post) = toLowerCase pre @ targetKeyword @ toLowerCase post"
    using w by (simp add: toLowerCase_append toLowerCase_keyword)
  then have "includes_str (toLowerCase (pre @ w @ post)) targetKeyword"
    unfolding includes_str_iff by blast
  with ne show "isTargetGroup (Some (pre @ w @ post))" by simp
qed

theorem isTargetGroup_contract_witness:
  "toLowerCase ''NeOL'' = toLowerCase targetKeyword
   \<and> isTargetGroup (Some (''Team '' @ ''NeOL'' @ '' 2024''))
   \<and> \<not> isTargetGroup (Some ''Random Chat'')"
proof -
  have h: "toLowerCase ''NeOL'' = toLowerCase targetKeyword"
    by code_simp
  have n: "\<not> isTargetGroup (Some ''Random Chat'')"
    by code_simp
  from isTargetGroup_contract [of None] h
  have "isTargetGroup (Some (''Team '' @ ''NeOL'' @ '' 2024''))" by blast
  with h n show ?thesis by blast
qed

section \<open>Reconciliation\<close>

lemma snd_member_key: "snd (member_key u) = u_groupId u"
  by (simp add: member_key_def)

lemma fst_member_key: "fst (member_key u) = phoneNumber u"
  by (simp add: member_key_def)

lemma first_index_None: "first_index P xs = None \<longleftrightarrow> (\<forall>x\<in>set xs. \<not> P x)"
  by (induction xs) auto

lemma first_index_Some:
  "first_index P xs = Some i \<Longrightarrow> i < length xs \<and> P (xs ! i) \<and> (\<forall>j<i. \<not> P (xs ! j))"
proof (induction xs arbitrary: i)
  case Nil
  then show ?case by simp
next
  case (Cons x xs)
  show ?case
  proof (cases "P x")
    case True
    with Cons.prems show ?thesis by simp
  next
    case False
    with Cons.prems obtain k where k: "first_index P xs = Some k" "i = Suc k" by auto
    from Cons.IH [OF k(1)] False k(2) show ?thesis
      by (auto simp: nth_Cons split: nat.splits)
  qed
qed

lemma store_call_ok: "faults s = [] \<Longrightarrow> store_call s = Returns () s"
  by (simp add: store_call_def)

lemma upserted_refl: "upserted g M us us"
  by (simp add: upserted_def)

lemma upserted_trans:
  assumes a: "upserted g M us us'" and b: "upserted g N us' us''"
  shows "upserted g (M \<union> N) us us''"
proof -
  have l1: "length us \<le> length us'" and l2: "length us' \<le> length us''"
    using a b by (simp_all add: upserted_def)
  have old: "member_key (us'' ! i) = member_key (us ! i)
            \<and> (isActive (us ! i) \<longrightarrow> isActive (us'' ! i))
            \<and> (\<not> (u_groupId (us ! i) = g \<and> phoneNumber (us ! i) \<in> M \<union> N) \<longrightarrow> us'' ! i = us ! i)"
    if i: "i < length us" for i
  proof -
    from i l1 have i': "i < length us'" by simp
    from a i have a1: "member_key (us' ! i) = member_key (us ! i)"
      and a2: "isActive (us ! i) \<longrightarrow> isActive (us' ! i)"
      and a3: "\<not> (u_groupId (us ! i) = g \<and> phoneNumber (us ! i) \<in> M) \<longrightarrow> us' ! i = us ! i"
      by (simp_all add: upserted_def)
    from b i' have b1: "member_key (us'' ! i) = member_key (us' ! i)"
      and b2: "isActive (us' ! i) \<longrightarrow> isActive (us'' ! i)"
      and b3: "\<not> (u_groupId (us' ! i) = g \<and> phoneNumber (us' ! i) \<in> N) \<longrightarrow> us'' ! i = us' ! i"
      by (simp_all add: upserted_def)
    from a1 have k: "u_groupId (us' ! i) = u_groupId (us ! i)" "phoneNumber (us' ! i) = phoneNumber (us ! i)"
      by (simp_all add: member_key_def)
    show ?thesis using a1 a2 a3 b1 b2 b3 k by auto
  qed
  have new: "u_groupId (us'' ! i) = g \<and> phoneNumber (us'' ! i) \<in> M \<union> N \<and> isActive (us'' ! i)"
    if i: "i < length us''" and n: "length us \<le> i" for i
  proof (cases "i < length us'")
    case True
    from a True n have a1: "u_groupId (us' ! i) = g" "phoneNumber (us' ! i) \<in> M" "isActive (us' ! i)"
      by (simp_all add: upserted_def)
    from b True have b1: "member_key (us'' ! i) = member_key (us' ! i)"
      and b2: "isActive (us' ! i) \<longrightarrow> isActive (us'' ! i)"
      by (simp_all add: upserted_def)
    from b1 have "u_groupId (us'' ! i) = u_groupId (us' ! i)" "phoneNumber (us'' ! i) = phoneNumber (us' ! i)"
      by (simp_all add: member_key_def)
    with a1 b2 show ?thesis by simp
  next
    case False
    with b i show ?thesis by (simp add: upserted_def)
  qed
  show ?thesis
    unfolding upserted_def using l1 l2 old new by (intro conjI allI impI) (simp_all)
qed

lemma same_store_but_users_refl: "same_store_but_users s s"
  by (simp add: same_store_but_users_def)

lemma same_store_but_users_trans:
  "same_store_but_users s s' \<Longrightarrow> same_store_but_users s' s'' \<Longrightarrow> same_store_but_users s s''"
  by (simp add: same_store_but_users_def)

lemma new_Date_run: "new_Date s = Returns (clock s) (s\<lparr>clock := Suc (clock s)\<rparr>)"
  by (simp add: new_Date_def)

lemma upsert_step:
  assumes f: "faults s = []"
  shows "\<exists>s' i. User_upsert_active p g t s = Returns () s'
     \<and> same_store_but_users s s'
     \<and> upserted g {p} (users s) (users s')
     \<and> i < length (users s') \<and> member_key (users s' ! i) = (p, g) \<and> isActive (users s' ! i)
     \<and> trace s' = trace s @ [UserWritten i]
     \<and> (unique_members g (users s) \<longrightarrow> unique_members g (users s'))"
proof (cases "first_index (\<lambda>u. phoneNumber u = p \<and> u_groupId u = g) (users s)")
  case None
  let ?new = "\<lparr>phoneNumber = p, u_groupId = g, isActive = True, u_updatedAt = t\<rparr>"
  let ?s' = "s\<lparr>users := users s @ [?new], trace := trace s @ [UserWritten (length (users s))]\<rparr>"
  from None have absent: "\<forall>u\<in>set (users s). \<not> (phoneNumber u = p \<and> u_groupId u = g)"
    by (simp add: first_index_None)
  have run: "User_upsert_active p g t s = Returns () ?s'"
    using f None by (simp add: User_upsert_active_def bindM_def store_call_ok emit_def)
  have ups: "upserted g {p} (users s) (users ?s')"
    by (auto simp: upserted_def nth_append)
  have uniq: "unique_members g (users ?s')" if u: "unique_members g (users s)"
    unfolding unique_members_def
  proof (intro allI impI)
    fix i j
    assume i: "i < length (users ?s')" and j: "j < length (users ?s')"
      and k: "u_groupId (users ?s' ! i) = g \<and> member_key (users ?s' ! i) = member_key (users ?s' ! j)"
    show "i = j"
    proof (cases "i < length (users s)")
      case True
      note iold = this
      show ?thesis
      proof (cases "j < length (users s)")
        case True
        with iold k u show ?thesis
          by (simp add: unique_members_def nth_append)
      next
        case False
        with j have "j = length (users s)" by simp
        with k iold have "member_key (users s ! i) = (p, g)"
          by (simp add: nth_append member_key_def)
        with absent iold show ?thesis
          by (auto simp: member_key_def)
      qed
    next
      case False
      with i have ie: "i = length (users s)" by simp
      show ?thesis
      proof (cases "j < length (users s)")
        case True
        with k ie have "member_key (users s ! j) = (p, g)"
          by (simp add: nth_append member_key_def)
        with absent True show ?thesis
          by (auto simp: member_key_def)
      next
        case False
        with j ie show ?thesis by simp
      qed
    qed
  qed
  show ?thesis
    apply (rule exI [of _ ?s'])
    apply (rule exI [of _ "length (users s)"])
    using run ups uniq
    apply (simp add: same_store_but_users_def member_key_def)
    done
next
  case (Some i)
  let ?d = "(users s ! i)\<lparr>phoneNumber := p, u_groupId := g, isActive := True, u_updatedAt := t\<rparr>"
  let ?s' = "s\<lparr>users := (users s)[i := ?d], trace := trace s @ [UserWritten i]\<rparr>"
  from first_index_Some [OF Some]
  have i: "i < length (users s)" and ki: "phoneNumber (users s ! i) = p" "u_groupId (users s ! i) = g"
    by simp_all
  have run: "User_upsert_active p g t s = Returns () ?s'"
    using f Some by (simp add: User_upsert_active_def bindM_def store_call_ok emit_def)
  have keys: "member_key ((users s)[i := ?d] ! j) = member_key (users s ! j)" if "j < length (users s)" for j
    using that ki by (cases "j = i") (simp_all add: member_key_def)
  have ups: "upserted g {p} (users s) (users ?s')"
    unfolding upserted_def using keys ki i
    by (auto simp: nth_list_update)
  have uniq: "unique_members g (users ?s')" if u: "unique_members g (users s)"
    unfolding unique_members_def
  proof (intro allI impI)
    fix a b
    assume a: "a < length (users ?s')" and b: "b < length (users ?s')"
      and k: "u_groupId (users ?s' ! a) = g \<and> member_key (users ?s' ! a) = member_key (users ?s' ! b)"
    have e: "users ?s' = (users s)[i := ?d]" by simp
    from a b have a': "a < length (users s)" and b': "b < length (users s)" by simp_all
    from k have k1: "u_groupId ((users s)[i := ?d] ! a) = g"
      and k2: "member_key ((users s)[i := ?d] ! a) = member_key ((users s)[i := ?d] ! b)"
      unfolding e by blast+
    from k2 keys [OF a'] keys [OF b']
    have "member_key (users s ! a) = member_key (users s ! b)" by simp
    moreover from k1 keys [OF a'] have "u_groupId (users s ! a) = g"
      by (metis snd_member_key)
    ultimately have "u_groupId (users s ! a) = g \<and> member_key (users s ! a) = member_key (users s ! b)"
      by blast
    with u a' b' show "a = b" by (simp add: unique_members_def)
  qed
  show ?thesis
    apply (rule exI [of _ ?s'])
    apply (rule exI [of _ i])
    using run ups uniq i
    apply (simp add: same_store_but_users_def member_key_def)
    done
qed

lemma upserted_keeps:
  assumes "upserted g M us us'" and "i < length us"
  shows "i < length us'" and "member_key (us' ! i) = member_key (us ! i)"
    and "isActive (us ! i) \<Longrightarrow> isActive (us' ! i)"
  using assms by (simp_all add: upserted_def)

lemma upsertMembers_ok:
  "faults s = [] \<Longrightarrow>
   \<exists>s' tr. upsertMembers g ms P s = Returns (P \<union> set ms) s'
     \<and> same_store_but_users s s'
     \<and> upserted g (set ms) (users s) (users s')
     \<and> (\<forall>p\<in>set ms. \<exists>i<length (users s').
           member_key (users s' ! i) = (p, g) \<and> isActive (users s' ! i))
     \<and> (unique_members g (users s) \<longrightarrow> unique_members g (users s'))
     \<and> trace s' = trace s @ tr
     \<and> (\<forall>e\<in>set tr. \<exists>i<length (users s'). e = UserWritten i
           \<and> u_groupId (users s' ! i) = g \<and> phoneNumber (users s' ! i) \<in> set ms)"
proof (induction ms arbitrary: s P)
  case Nil
  show ?case
    apply (rule exI [of _ s])
    apply (rule exI [of _ "[]"])
    apply (simp add: returnM_def same_store_but_users_refl upserted_refl)
    done
next
  case (Cons p rest)
  let ?s0 = "s\<lparr>clock := Suc (clock s)\<rparr>"
  have f0: "faults ?s0 = []" using Cons.prems by simp
  from upsert_step [OF f0, of p g "clock s"]
  obtain s1 i where
    run1: "User_upsert_active p g (clock s) ?s0 = Returns () s1"
    and same1: "same_store_but_users ?s0 s1"
    and ups1: "upserted g {p} (users ?s0) (users s1)"
    and i1: "i < length (users s1)"
    and key1: "member_key (users s1 ! i) = (p, g)"
    and act1: "isActive (users s1 ! i)"
    and tr1: "trace s1 = trace ?s0 @ [UserWritten i]"
    and uniq1: "unique_members g (users ?s0) \<longrightarrow> unique_members g (users s1)"
    by blast
  have f1: "faults s1 = []" using same1 f0 by (simp add: same_store_but_users_def)
  from Cons.IH [OF f1, of "insert p P"]
  obtain s2 tr2 where
    run2: "upsertMembers g rest (insert p P) s1 = Returns (insert p P \<union> set rest) s2"
    and same2: "same_store_but_users s1 s2"
    and ups2: "upserted g (set rest) (users s1) (users s2)"
    and ex2: "\<forall>q\<in>set rest. \<exists>j<length (users s2).
           member_key (users s2 ! j) = (q, g) \<and> isActive (users s2 ! j)"
    and uniq2: "unique_members g (users s1) \<longrightarrow> unique_members g (users s2)"
    and tr2: "trace s2 = trace s1 @ tr2"
    and wr2: "\<forall>e\<in>set tr2. \<exists>j<length (users s2). e = UserWritten j
           \<and> u_groupId (users s2 ! j) = g \<and> phoneNumber (users s2 ! j) \<in> set rest"
    by blast
  have run: "upsertMembers g (p # rest) P s = Returns (P \<union> set (p # rest)) s2"
    using run1 run2 by (simp add: bindM_def new_Date_run)
  have same: "same_store_but_users s s2"
    using same1 same2 by (simp add: same_store_but_users_def)
  have ups: "upserted g (set (p # rest)) (users s) (users s2)"
    using upserted_trans [OF ups1 ups2] by simp
  note k = upserted_keeps [OF ups2 i1]
  have i2: "i < length (users s2)" and key2: "member_key (users s2 ! i) = (p, g)"
    and act2: "isActive (users s2 ! i)"
    using k key1 act1 by simp_all
  have ex: "\<forall>q\<in>set (p # rest). \<exists>j<length (users s2).
           member_key (users s2 ! j) = (q, g) \<and> isActive (users s2 ! j)"
    using ex2 i2 key2 act2 by auto
  have uniq: "unique_members g (users s) \<longrightarrow> unique_members g (users s2)"
    using uniq1 uniq2 by simp
  have tr: "trace s2 = trace s @ (UserWritten i # tr2)"
    using tr1 tr2 by simp
  have g2: "u_groupId (users s2 ! i) = g" and p2: "phoneNumber (users s2 ! i) = p"
    using key2 by (simp_all add: member_key_def)
  have wr: "\<forall>e\<in>set (UserWritten i # tr2). \<exists>j<length (users s2). e = UserWritten j
           \<and> u_groupId (users s2 ! j) = g \<and> phoneNumber (users s2 ! j) \<in> set (p # rest)"
    using wr2 i2 g2 p2 by auto
  show ?case
    apply (rule exI [of _ s2])
    apply (rule exI [of _ "UserWritten i # tr2"])
    using run same ups ex uniq tr wr
    apply blast
    done
qed

lemma deactivation_targets_Nil: "deactivation_targets [] P = {}"
  by (simp add: deactivation_targets_def)

lemma deactivation_targets_Cons:
  "deactivation_targets ((p, i, d) # es) P =
     (if p \<notin> P \<and> isActive d then insert i (deactivation_targets es P)
      else deactivation_targets es P)"
  by (auto simp: deactivation_targets_def)

lemma deactivate_step:
  assumes f: "faults s = []"
  shows "\<exists>s'. User_deactivate_by_id i t s = Returns () s'
     \<and> same_store_but_users s s'
     \<and> length (users s') = length (users s)
     \<and> (\<forall>j<length (users s). member_key (users s' ! j) = member_key (users s ! j)
           \<and> (if j = i then \<not> isActive (users s' ! j) else users s' ! j = users s ! j))
     \<and> trace s' = trace s @ (if i < length (users s) then [UserWritten i] else [])"
proof (cases "i < length (users s)")
  case True
  let ?s' = "s\<lparr>users := (users s)[i := (users s ! i)\<lparr>isActive := False, u_updatedAt := t\<rparr>],
               trace := trace s @ [UserWritten i]\<rparr>"
  have run: "User_deactivate_by_id i t s = Returns () ?s'"
    using f True by (simp add: User_deactivate_by_id_def bindM_def store_call_ok emit_def)
  show ?thesis
    apply (rule exI [of _ ?s'])
    using run True
    apply (simp add: same_store_but_users_def member_key_def nth_list_update)
    done
next
  case False
  have run: "User_deactivate_by_id i t s = Returns () s"
    using f False by (simp add: User_deactivate_by_id_def bindM_def store_call_ok)
  show ?thesis
    apply (rule exI [of _ s])
    using run False
    apply (simp add: same_store_but_users_refl)
    done
qed

lemma deactivateMissing_ok:
  "faults s = [] \<Longrightarrow>
   \<exists>s' tr. deactivateMissing es P s = Returns () s'
     \<and> same_store_but_users s s'
     \<and> length (users s') = length (users s)
     \<and> (\<forall>j<length (users s). member_key (users s' ! j) = member_key (users s ! j)
           \<and> (if j \<in> deactivation_targets es P then \<not> isActive (users s' ! j)
               else users s' ! j = users s ! j))
     \<and> trace s' = trace s @ tr
     \<and> (\<forall>e\<in>set tr. \<exists>j<length (users s). e = UserWritten j \<and> j \<in> deactivation_targets es P)"
proof (induction es arbitrary: s)
  case Nil
  show ?case
    apply (rule exI [of _ s])
    apply (rule exI [of _ "[]"])
    apply (simp add: returnM_def same_store_but_users_refl deactivation_targets_Nil)
    done
next
  case (Cons x es)
  obtain p i d where x: "x = (p, i, d)" by (cases x) auto
  show ?case
  proof (cases "p \<notin> P \<and> isActive d")
    case False
    have tgt: "deactivation_targets (x # es) P = deactivation_targets es P"
      using False by (auto simp: x deactivation_targets_Cons)
    have run: "deactivateMissing (x # es) P s = deactivateMissing es P s"
      using False by (auto simp: x)
    show ?thesis
      unfolding tgt run by (rule Cons.IH [OF Cons.prems])
  next
    case True
    let ?s0 = "s\<lparr>clock := Suc (clock s)\<rparr>"
    have f0: "faults ?s0 = []" using Cons.prems by simp
    from deactivate_step [OF f0, of i "clock s"]
    obtain s1 where
      run1: "User_deactivate_by_id i (clock s) ?s0 = Returns () s1"
      and same1: "same_store_but_users ?s0 s1"
      and len1: "length (users s1) = length (users ?s0)"
      and eff1: "\<forall>j<length (users ?s0). member_key (users s1 ! j) = member_key (users ?s0 ! j)
           \<and> (if j = i then \<not> isActive (users s1 ! j) else users s1 ! j = users ?s0 ! j)"
      and tr1: "trace s1 = trace ?s0 @ (if i < length (users ?s0) then [UserWritten i] else [])"
      by blast
    have f1: "faults s1 = []" using same1 f0 by (simp add: same_store_but_users_def)
    from Cons.IH [OF f1]
    obtain s2 tr2 where
      run2: "deactivateMissing es P s1 = Returns () s2"
      and same2: "same_store_but_users s1 s2"
      and len2: "length (users s2) = length (users s1)"
      and eff2: "\<forall>j<length (users s1). member_key (users s2 ! j) = member_key (users s1 ! j)
           \<and> (if j \<in> deactivation_targets es P then \<not> isActive (users s2 ! j)
               else users s2 ! j = users s1 ! j)"
      and tr2: "trace s2 = trace s1 @ tr2"
      and wr2: "\<forall>e\<in>set tr2. \<exists>j<length (users s1). e = UserWritten j \<and> j \<in> deactivation_targets es P"
      by blast
    let ?tr = "(if i < length (users s) then [UserWritten i] else []) @ tr2"
    have run: "deactivateMissing (x # es) P s = Returns () s2"
      using True run1 run2 by (simp add: x bindM_def new_Date_run)
    have same: "same_store_but_users s s2"
      using same1 same2 by (simp add: same_store_but_users_def)
    have len: "length (users s2) = length (users s)"
      using len1 len2 by simp
    have tgt: "deactivation_targets (x # es) P = insert i (deactivation_targets es P)"
      using True by (simp add: x deactivation_targets_Cons)
    have eff: "member_key (users s2 ! j) = member_key (users s ! j)
           \<and> (if j \<in> deactivation_targets (x # es) P then \<not> isActive (users s2 ! j)
               else users s2 ! j = users s ! j)" if j: "j < length (users s)" for j
    proof -
      from j len1 have j1: "j < length (users s1)" by simp
      from eff1 j have a: "member_key (users s1 ! j) = member_key (users s ! j)"
        and b: "if j = i then \<not> isActive (users s1 ! j) else users s1 ! j = users s ! j"
        by simp_all
      from eff2 j1 have c: "member_key (users s2 ! j) = member_key (users s1 ! j)"
        and d: "if j \<in> deactivation_targets es P then \<not> isActive (users s2 ! j)
               else users s2 ! j = users s1 ! j"
        by simp_all
      show ?thesis
        unfolding tgt using a b c d by (auto split: if_splits)
    qed
    have tr: "trace s2 = trace s @ ?tr"
      using tr1 tr2 by simp
    have wr: "\<forall>e\<in>set ?tr. \<exists>j<length (users s). e = UserWritten j \<and> j \<in> deactivation_targets (x # es) P"
      unfolding tgt using wr2 len1 by auto
    show ?thesis
      apply (rule exI [of _ s2])
      apply (rule exI [of _ ?tr])
      using run same len eff tr wr
      apply blast
      done
  qed
qed

lemma set_map_set: "set (map_set k v m) \<subseteq> insert (k, v) (set m)"
  by (induction m) auto

lemma map_set_fresh: "k \<notin> fst ` set m \<Longrightarrow> map_set k v m = m @ [(k, v)]"
  by (induction m) auto

lemma set_foldl_map_set:
  "set (foldl (\<lambda>m (k, v). map_set k v m) acc es) \<subseteq> set acc \<union> set es"
proof (induction es arbitrary: acc)
  case Nil
  show ?case by simp
next
  case (Cons e es)
  obtain k v where e: "e = (k, v)" by (cases e) auto
  have "set (foldl (\<lambda>m (k, v). map_set k v m) (map_set k v acc) es)
          \<subseteq> set (map_set k v acc) \<union> set es"
    by (rule Cons.IH)
  also have "\<dots> \<subseteq> insert (k, v) (set acc) \<union> set es"
    using set_map_set [of k v acc] by auto
  finally show ?case by (auto simp: e)
qed

lemma set_new_Map: "set (new_Map es) \<subseteq> set es"
  using set_foldl_map_set [of "[]" es] by (simp add: new_Map_def)

lemma foldl_map_set_distinct:
  "distinct (map fst (acc @ es)) \<Longrightarrow> foldl (\<lambda>m (k, v). map_set k v m) acc es = acc @ es"
proof (induction es arbitrary: acc)
  case Nil
  show ?case by simp
next
  case (Cons e es)
  obtain k v where e: "e = (k, v)" by (cases e) auto
  from Cons.prems have fresh: "k \<notin> fst ` set acc" by (auto simp: e)
  from Cons.prems have d: "distinct (map fst ((acc @ [(k, v)]) @ es))" by (simp add: e)
  have "foldl (\<lambda>m (k, v). map_set k v m) (acc @ [(k, v)]) es = (acc @ [(k, v)]) @ es"
    by (rule Cons.IH [OF d])
  then show ?case by (simp add: e map_set_fresh [OF fresh])
qed

lemma new_Map_distinct: "distinct (map fst es) \<Longrightarrow> new_Map es = es"
  using foldl_map_set_distinct [of "[]" es] by (simp add: new_Map_def)

lemma in_existing_entries:
  "(p, i, d) \<in> set (existing_entries g us) \<longleftrightarrow>
     i < length us \<and> d = us ! i \<and> u_groupId d = g \<and> p = phoneNumber d"
  by (auto simp: existing_entries_def in_set_enumerate_eq)

lemma distinct_existing_entries:
  assumes u: "unique_members g us"
  shows "distinct (map fst (existing_entries g us))"
proof -
  let ?xs = "filter (\<lambda>(i, u). u_groupId u = g) (enumerate 0 us)"
  have d: "distinct ?xs"
    by (simp add: distinct_enumerate)
  have inj: "inj_on (\<lambda>(i, member). phoneNumber member) (set ?xs)"
  proof (rule inj_onI)
    fix a b
    assume a: "a \<in> set ?xs" and b: "b \<in> set ?xs"
      and e: "(\<lambda>(i, member). phoneNumber member) a = (\<lambda>(i, member). phoneNumber member) b"
    obtain i x where ax: "a = (i, x)" by (cases a) auto
    obtain j y where bx: "b = (j, y)" by (cases b) auto
    from a ax have i: "i < length us" "x = us ! i" "u_groupId x = g"
      by (auto simp: in_set_enumerate_eq)
    from b bx have j: "j < length us" "y = us ! j" "u_groupId y = g"
      by (auto simp: in_set_enumerate_eq)
    from e ax bx have "phoneNumber x = phoneNumber y" by simp
    with i j have "member_key (us ! i) = member_key (us ! j)"
      by (simp add: member_key_def)
    with u i j have "i = j" by (simp add: unique_members_def)
    with i j ax bx show "a = b" by simp
  qed
  have "map fst (existing_entries g us) = map (\<lambda>(i, member). phoneNumber member) ?xs"
    by (simp add: existing_entries_def case_prod_unfold comp_def)
  then show ?thesis
    using d inj by (simp add: distinct_map)
qed

lemma targets_sound:
  assumes "i \<in> deactivation_targets (new_Map (existing_entries g us)) P"
  shows "i < length us \<and> u_groupId (us ! i) = g \<and> phoneNumber (us ! i) \<notin> P \<and> isActive (us ! i)"
proof -
  from assms obtain p d where
    m: "(p, i, d) \<in> set (new_Map (existing_entries g us))" and c: "p \<notin> P" "isActive d"
    by (auto simp: deactivation_targets_def)
  from m set_new_Map have "(p, i, d) \<in> set (existing_entries g us)" by blast
  then have "i < length us \<and> d = us ! i \<and> u_groupId d = g \<and> p = phoneNumber d"
    by (rule iffD1 [OF in_existing_entries])
  with c show ?thesis by blast
qed

lemma targets_complete:
  assumes u: "unique_members g us" and i: "i < length us" and g: "u_groupId (us ! i) = g"
    and p: "phoneNumber (us ! i) \<notin> P" "isActive (us ! i)"
  shows "i \<in> deactivation_targets (new_Map (existing_entries g us)) P"
proof -
  have "new_Map (existing_entries g us) = existing_entries g us"
    by (rule new_Map_distinct [OF distinct_existing_entries [OF u]])
  moreover have "(phoneNumber (us ! i), i, us ! i) \<in> set (existing_entries g us)"
    using i g by (simp add: in_existing_entries)
  ultimately show ?thesis
    using p by (auto simp: deactivation_targets_def)
qed

lemma User_find_ok:
  "faults s = [] \<Longrightarrow>
   User_find g s = Returns (filter (\<lambda>(i, u). u_groupId u = g) (enumerate 0 (users s))) s"
  by (simp add: User_find_def bindM_def store_call_ok)

lemma syncGroupMembers_ok:
  assumes f: "faults s = []" and mon: "g \<in> monitoredGroupsCache s"
  shows "\<exists>s' tr. syncGroupMembers g ms s = Returns () s'
     \<and> same_store_but_users s s' \<and> trace s' = trace s @ tr
     \<and> length (users s) \<le> length (users s')
     \<and> (\<forall>i<length (users s).
           member_key (users s' ! i) = member_key (users s ! i)
           \<and> (u_groupId (users s ! i) \<noteq> g \<longrightarrow> users s' ! i = users s ! i)
           \<and> (phoneNumber (users s ! i) \<notin> set ms \<and> \<not> isActive (users s ! i)
                \<longrightarrow> users s' ! i = users s ! i \<and> UserWritten i \<notin> set tr))
     \<and> (\<forall>i<length (users s'). length (users s) \<le> i \<longrightarrow>
           u_groupId (users s' ! i) = g \<and> phoneNumber (users s' ! i) \<in> set ms)
     \<and> (\<forall>p\<in>set ms. \<exists>i<length (users s').
           member_key (users s' ! i) = (p, g) \<and> isActive (users s' ! i))
     \<and> (\<forall>i. UserWritten i \<in> set tr \<longrightarrow> i < length (users s') \<and> u_groupId (users s' ! i) = g)
     \<and> (unique_members g (users s) \<longrightarrow>
           unique_members g (users s')
           \<and> (\<forall>i<length (users s'). u_groupId (users s' ! i) = g \<longrightarrow>
                 isActive (users s' ! i) = (phoneNumber (users s' ! i) \<in> set ms)))"
proof -
  let ?us = "users s"
  let ?emap = "new_Map (existing_entries g ?us)"
  let ?D = "deactivation_targets ?emap (set ms)"
  from upsertMembers_ok [OF f, of g ms "{}"]
  obtain s1 tr1 where
    run1: "upsertMembers g ms {} s = Returns (set ms) s1"
    and same1: "same_store_but_users s s1"
    and ups1: "upserted g (set ms) ?us (users s1)"
    and ex1: "\<forall>p\<in>set ms. \<exists>i<length (users s1).
           member_key (users s1 ! i) = (p, g) \<and> isActive (users s1 ! i)"
    and uniq1: "unique_members g ?us \<longrightarrow> unique_members g (users s1)"
    and tr1: "trace s1 = trace s @ tr1"
    and wr1: "\<forall>e\<in>set tr1. \<exists>i<length (users s1). e = UserWritten i
           \<and> u_groupId (users s1 ! i) = g \<and> phoneNumber (users s1 ! i) \<in> set ms"
    by auto
  have f1: "faults s1 = []" using same1 f by (simp add: same_store_but_users_def)
  from deactivateMissing_ok [OF f1, of ?emap "set ms"]
  obtain s2 tr2 where
    run2: "deactivateMissing ?emap (set ms) s1 = Returns () s2"
    and same2: "same_store_but_users s1 s2"
    and len2: "length (users s2) = length (users s1)"
    and eff2: "\<forall>j<length (users s1). member_key (users s2 ! j) = member_key (users s1 ! j)
           \<and> (if j \<in> ?D then \<not> isActive (users s2 ! j) else users s2 ! j = users s1 ! j)"
    and tr2: "trace s2 = trace s1 @ tr2"
    and wr2: "\<forall>e\<in>set tr2. \<exists>j<length (users s1). e = UserWritten j \<and> j \<in> ?D"
    by blast
  let ?s' = "s2\<lparr>trace := trace s2 @ [Log Success]\<rparr>"
  let ?tr = "tr1 @ tr2 @ [Log Success]"
  have us': "users ?s' = users s2" by simp
  have run: "syncGroupMembers g ms s = Returns () ?s'"
    using mon f run1 run2
    by (simp add: syncGroupMembers_def isMonitoredGroup_def tryCatch_def bindM_def
        User_find_ok existing_entries_def logger_def emit_def Let_def)
  have same: "same_store_but_users s ?s'"
    using same1 same2 by (simp add: same_store_but_users_def)
  have tr: "trace ?s' = trace s @ ?tr"
    using tr1 tr2 by simp
  have len1: "length ?us \<le> length (users s1)"
    using ups1 by (simp add: upserted_def)
  have len: "length ?us \<le> length (users s2)"
    using len1 len2 by simp
  have D: "i < length ?us \<and> u_groupId (?us ! i) = g \<and> phoneNumber (?us ! i) \<notin> set ms
            \<and> isActive (?us ! i)" if "i \<in> ?D" for i
    using targets_sound [OF that] .
  have key2: "member_key (users s2 ! i) = member_key (users s1 ! i)" if "i < length (users s1)" for i
    using eff2 that by simp
  have keep2: "users s2 ! i = users s1 ! i" if "i < length (users s1)" "i \<notin> ?D" for i
    using eff2 that by simp
  have old: "member_key (users s2 ! i) = member_key (?us ! i)
           \<and> (u_groupId (?us ! i) \<noteq> g \<longrightarrow> users s2 ! i = ?us ! i)
           \<and> (phoneNumber (?us ! i) \<notin> set ms \<and> \<not> isActive (?us ! i)
                \<longrightarrow> users s2 ! i = ?us ! i \<and> UserWritten i \<notin> set ?tr)"
    if i: "i < length ?us" for i
  proof -
    from i len1 have i1: "i < length (users s1)" by simp
    note k1 = upserted_keeps(2) [OF ups1 i]
    have a: "member_key (users s2 ! i) = member_key (?us ! i)"
      using key2 [OF i1] k1 by simp
    have b: "users s2 ! i = ?us ! i" if ng: "u_groupId (?us ! i) \<noteq> g"
    proof -
      from ng D have "i \<notin> ?D" by blast
      then have "users s2 ! i = users s1 ! i" using keep2 i1 by simp
      moreover from ups1 i ng have "users s1 ! i = ?us ! i" by (simp add: upserted_def)
      ultimately show ?thesis by simp
    qed
    have c: "users s2 ! i = ?us ! i \<and> UserWritten i \<notin> set ?tr"
      if np: "phoneNumber (?us ! i) \<notin> set ms" and na: "\<not> isActive (?us ! i)"
    proof -
      from na D have nd: "i \<notin> ?D" by blast
      then have e2: "users s2 ! i = users s1 ! i" using keep2 i1 by simp
      from ups1 i np have e1: "users s1 ! i = ?us ! i" by (simp add: upserted_def)
      have "UserWritten i \<notin> set tr1"
      proof
        assume "UserWritten i \<in> set tr1"
        with wr1 have "phoneNumber (users s1 ! i) \<in> set ms" by auto
        with e1 np show False by simp
      qed
      moreover have "UserWritten i \<notin> set tr2"
      proof
        assume "UserWritten i \<in> set tr2"
        with wr2 have "i \<in> ?D" by auto
        with nd show False by simp
      qed
      ultimately show ?thesis using e1 e2 by simp
    qed
    show ?thesis using a b c by blast
  qed
  have new: "u_groupId (users s2 ! i) = g \<and> phoneNumber (users s2 ! i) \<in> set ms"
    if i: "i < length (users s2)" and n: "length ?us \<le> i" for i
  proof -
    from i len2 have i1: "i < length (users s1)" by simp
    from ups1 i1 n have "u_groupId (users s1 ! i) = g \<and> phoneNumber (users s1 ! i) \<in> set ms"
      by (simp add: upserted_def)
    moreover from key2 [OF i1]
    have "u_groupId (users s2 ! i) = u_groupId (users s1 ! i)"
      "phoneNumber (users s2 ! i) = phoneNumber (users s1 ! i)"
      by (simp_all add: member_key_def)
    ultimately show ?thesis by simp
  qed
  have notD: "i \<notin> ?D" if i1: "i < length (users s1)" and pm: "phoneNumber (users s1 ! i) \<in> set ms" for i
  proof
    assume d: "i \<in> ?D"
    from D [OF d] have i: "i < length ?us" and np: "phoneNumber (?us ! i) \<notin> set ms" by simp_all
    from upserted_keeps(2) [OF ups1 i] have "phoneNumber (users s1 ! i) = phoneNumber (?us ! i)"
      by (simp add: member_key_def)
    with pm np show False by simp
  qed
  have ex: "\<exists>i<length (users s2). member_key (users s2 ! i) = (p, g) \<and> isActive (users s2 ! i)"
    if p: "p \<in> set ms" for p
  proof -
    from ex1 p obtain i where i1: "i < length (users s1)"
      and k: "member_key (users s1 ! i) = (p, g)" and a: "isActive (users s1 ! i)"
      by blast
    from k p have "phoneNumber (users s1 ! i) \<in> set ms" by (simp add: member_key_def)
    from keep2 [OF i1 notD [OF i1 this]] have "users s2 ! i = users s1 ! i" .
    with i1 k a len2 show ?thesis by auto
  qed
  have written: "i < length (users s2) \<and> u_groupId (users s2 ! i) = g"
    if w: "UserWritten i \<in> set ?tr" for i
  proof -
    from w consider "UserWritten i \<in> set tr1" | "UserWritten i \<in> set tr2" by auto
    then show ?thesis
    proof cases
      case 1
      with wr1 have i1: "i < length (users s1)" and g1: "u_groupId (users s1 ! i) = g" by auto
      from key2 [OF i1] g1 have "u_groupId (users s2 ! i) = g" by (metis snd_member_key)
      with i1 len2 show ?thesis by simp
    next
      case 2
      with wr2 have d: "i \<in> ?D" by auto
      from D [OF d] have i: "i < length ?us" and g0: "u_groupId (?us ! i) = g" by simp_all
      from old [OF i] g0 have "u_groupId (users s2 ! i) = g" by (metis snd_member_key)
      with i len show ?thesis by simp
    qed
  qed
  have uniq: "unique_members g (users s2)
           \<and> (\<forall>i<length (users s2). u_groupId (users s2 ! i) = g \<longrightarrow>
                 isActive (users s2 ! i) = (phoneNumber (users s2 ! i) \<in> set ms))"
    if u: "unique_members g ?us"
  proof
    from u uniq1 have u1: "unique_members g (users s1)" by simp
    show u2: "unique_members g (users s2)"
      unfolding unique_members_def
    proof (intro allI impI)
      fix a b
      assume a: "a < length (users s2)" and b: "b < length (users s2)"
        and k: "u_groupId (users s2 ! a) = g \<and> member_key (users s2 ! a) = member_key (users s2 ! b)"
      from a b len2 have a1: "a < length (users s1)" and b1: "b < length (users s1)" by simp_all
      from k key2 [OF a1] key2 [OF b1]
      have "member_key (users s1 ! a) = member_key (users s1 ! b)" by simp
      moreover from k key2 [OF a1] have "u_groupId (users s1 ! a) = g" by (metis snd_member_key)
      ultimately show "a = b" using u1 a1 b1 by (simp add: unique_members_def)
    qed
    show "\<forall>i<length (users s2). u_groupId (users s2 ! i) = g \<longrightarrow>
                 isActive (users s2 ! i) = (phoneNumber (users s2 ! i) \<in> set ms)"
    proof (intro allI impI)
      fix i
      assume i2: "i < length (users s2)" and g2: "u_groupId (users s2 ! i) = g"
      from i2 len2 have i1: "i < length (users s1)" by simp
      have k21: "member_key (users s2 ! i) = member_key (users s1 ! i)" by (rule key2 [OF i1])
      then have p21: "phoneNumber (users s2 ! i) = phoneNumber (users s1 ! i)"
        and g21: "u_groupId (users s2 ! i) = u_groupId (users s1 ! i)"
        by (simp_all add: member_key_def)
      show "isActive (users s2 ! i) = (phoneNumber (users s2 ! i) \<in> set ms)"
      proof (cases "phoneNumber (users s2 ! i) \<in> set ms")
        case True
        with ex1 obtain j where j1: "j < length (users s1)"
          and kj: "member_key (users s1 ! j) = (phoneNumber (users s2 ! i), g)"
          and aj: "isActive (users s1 ! j)"
          by blast
        have "member_key (users s1 ! i) = (phoneNumber (users s2 ! i), g)"
          using p21 g21 g2 by (simp add: member_key_def)
        with kj have "u_groupId (users s1 ! i) = g \<and> member_key (users s1 ! i) = member_key (users s1 ! j)"
          using g21 g2 by simp
        with u1 i1 j1 have "i = j" by (simp add: unique_members_def)
        with aj have a1: "isActive (users s1 ! i)" by simp
        from True p21 have "phoneNumber (users s1 ! i) \<in> set ms" by simp
        from keep2 [OF i1 notD [OF i1 this]] a1 True show ?thesis by simp
      next
        case False
        have i0: "i < length ?us"
        proof (rule ccontr)
          assume "\<not> i < length ?us"
          with new [OF i2] False show False by simp
        qed
        from False p21 have np1: "phoneNumber (users s1 ! i) \<notin> set ms" by simp
        from upserted_keeps(2) [OF ups1 i0]
        have p10: "phoneNumber (users s1 ! i) = phoneNumber (?us ! i)"
          and g10: "u_groupId (users s1 ! i) = u_groupId (?us ! i)"
          by (simp_all add: member_key_def)
        from np1 p10 have np0: "phoneNumber (?us ! i) \<notin> set ms" by simp
        from g2 g21 g10 have g0: "u_groupId (?us ! i) = g" by simp
        from ups1 i0 np0 have e1: "users s1 ! i = ?us ! i" by (simp add: upserted_def)
        show ?thesis
        proof (cases "isActive (?us ! i)")
          case True
          from targets_complete [OF u i0 g0 np0 True] have "i \<in> ?D" .
          with eff2 i1 have "\<not> isActive (users s2 ! i)" by simp
          with False show ?thesis by simp
        next
          case na: False
          with D have "i \<notin> ?D" by blast
          from keep2 [OF i1 this] e1 na False show ?thesis by simp
        qed
      qed
    qed
  qed
  show ?thesis
    apply (rule exI [of _ ?s'])
    apply (rule exI [of _ ?tr])
    unfolding us'
    using run same tr len old new ex written uniq
    apply (intro conjI)
            apply blast
           apply blast
          apply blast
         apply blast
        apply blast
       apply blast
      apply blast
     apply blast
    apply blast
    done
qed

lemma filter_single:
  assumes i: "i < length xs" and p: "P (xs ! i)"
    and only: "\<And>j. j < length xs \<Longrightarrow> P (xs ! j) \<Longrightarrow> j = i"
  shows "filter P xs = [xs ! i]"
proof -
  have xs: "xs = take i xs @ xs ! i # drop (Suc i) xs"
    using i by (simp add: id_take_nth_drop)
  have a: "filter P (take i xs) = []"
  proof -
    have "\<not> P x" if "x \<in> set (take i xs)" for x
    proof -
      from that obtain j where j: "j < length (take i xs)" "x = take i xs ! j"
        by (auto simp: in_set_conv_nth)
      then have "j < i" "j < length xs" "x = xs ! j" using i by simp_all
      with only [of j] show ?thesis by auto
    qed
    then show ?thesis by (simp add: filter_empty_conv)
  qed
  have b: "filter P (drop (Suc i) xs) = []"
  proof -
    have "\<not> P x" if "x \<in> set (drop (Suc i) xs)" for x
    proof -
      from that obtain j where j: "j < length (drop (Suc i) xs)" "x = drop (Suc i) xs ! j"
        by (auto simp: in_set_conv_nth)
      then have "Suc i + j < length xs" "x = xs ! (Suc i + j)" using i by simp_all
      with only [of "Suc i + j"] show ?thesis by auto
    qed
    then show ?thesis by (simp add: filter_empty_conv)
  qed
  have "filter P xs = filter P (take i xs) @ filter P [xs ! i] @ filter P (drop (Suc i) xs)"
    by (subst xs) simp
  with a b p show ?thesis by simp
qed

lemma unique_member_filter:
  assumes u: "unique_members g us" and i: "i < length us" and k: "member_key (us ! i) = (x, g)"
  shows "[u \<leftarrow> us. phoneNumber u = x \<and> u_groupId u = g] = [us ! i]"
proof (rule filter_single [OF i])
  show "phoneNumber (us ! i) = x \<and> u_groupId (us ! i) = g"
    using k by (simp add: member_key_def)
next
  fix j
  assume j: "j < length us" and "phoneNumber (us ! j) = x \<and> u_groupId (us ! j) = g"
  then have "u_groupId (us ! j) = g \<and> member_key (us ! j) = member_key (us ! i)"
    using k by (simp add: member_key_def)
  with u i j show "j = i" by (simp add: unique_members_def)
qed

lemma filter_prefix:
  assumes n: "length xs \<le> length ys"
    and old: "\<And>i. i < length xs \<Longrightarrow> ys ! i = xs ! i \<and> P (xs ! i)"
    and new: "\<And>i. length xs \<le> i \<Longrightarrow> i < length ys \<Longrightarrow> \<not> P (ys ! i)"
  shows "filter P ys = xs"
proof -
  have t: "take (length xs) ys = xs"
    using n old by (intro nth_equalityI) simp_all
  have a: "filter P xs = xs"
  proof -
    have "P x" if "x \<in> set xs" for x
      using that old by (auto simp: in_set_conv_nth)
    then show ?thesis by simp
  qed
  have b: "filter P (drop (length xs) ys) = []"
  proof -
    have "\<not> P y" if "y \<in> set (drop (length xs) ys)" for y
    proof -
      from that obtain j where j: "j < length (drop (length xs) ys)" "y = drop (length xs) ys ! j"
        by (auto simp: in_set_conv_nth)
      then have "length xs + j < length ys" "y = ys ! (length xs + j)" using n by simp_all
      with new [of "length xs + j"] show ?thesis by simp
    qed
    then show ?thesis by (simp add: filter_empty_conv)
  qed
  have "filter P ys = filter P (take (length xs) ys) @ filter P (drop (length xs) ys)"
    by (metis append_take_drop_id filter_append)
  with t a b show ?thesis by simp
qed

lemma no_members_unique: "\<forall>u\<in>set us. u_groupId u \<noteq> g \<Longrightarrow> unique_members g us"
  by (auto simp: unique_members_def)

text \<open>
  C1. In a monitored group \<open>g\<close> with no membership record yet, reconciling with a
  roster whose members are A and B and then with one whose members are B and C (store
  calls succeeding) leaves exactly one record for each of A, B and C in \<open>g\<close>, the
  one for A inactive and those for B and C active; all other records are the store's
  original records, unchanged and in their order, and the Group collection is as it
  was. Moreover, in any store, a record that is inactive and whose identifier the roster
  lacks is left as it is by a reconciliation, and no write is issued for it.
\<close>

theorem sync_twice:
  assumes f: "faults s = []" and mon: "g \<in> monitoredGroupsCache s"
    and none: "\<forall>u\<in>set (users s). u_groupId u \<noteq> g"
    and r1: "set ms1 = {A, B}" and r2: "set ms2 = {B, C}"
    and ne: "A \<noteq> B" "A \<noteq> C"
  shows "(\<exists>s1 s2. syncGroupMembers g ms1 s = Returns () s1
       \<and> syncGroupMembers g ms2 s1 = Returns () s2
       \<and> (\<exists>a. [u \<leftarrow> users s2. phoneNumber u = A \<and> u_groupId u = g] = [a] \<and> \<not> isActive a)
       \<and> (\<exists>b. [u \<leftarrow> users s2. phoneNumber u = B \<and> u_groupId u = g] = [b] \<and> isActive b)
       \<and> (\<exists>c. [u \<leftarrow> users s2. phoneNumber u = C \<and> u_groupId u = g] = [c] \<and> isActive c)
       \<and> [u \<leftarrow> users s2. \<not> (u_groupId u = g \<and> phoneNumber u \<in> {A, B, C})] = users s
       \<and> groups s2 = groups s)
   \<and> (\<forall>t ms i. faults t = [] \<and> g \<in> monitoredGroupsCache t \<and> i < length (users t)
         \<and> phoneNumber (users t ! i) \<notin> set ms \<and> \<not> isActive (users t ! i)
       \<longrightarrow> (\<exists>t'. syncGroupMembers g ms t = Returns () t'
              \<and> users t' ! i = users t ! i
              \<and> UserWritten i \<notin> set (drop (length (trace t)) (trace t'))))"
proof (intro conjI allI impI)
  let ?us = "users s"
  have u0: "unique_members g ?us" by (rule no_members_unique [OF none])
  from syncGroupMembers_ok [OF f mon, of ms1]
  obtain s1 tr1 where
    run1: "syncGroupMembers g ms1 s = Returns () s1"
    and same1: "same_store_but_users s s1"
    and len1: "length ?us \<le> length (users s1)"
    and old1: "\<forall>i<length ?us. member_key (users s1 ! i) = member_key (?us ! i)
           \<and> (u_groupId (?us ! i) \<noteq> g \<longrightarrow> users s1 ! i = ?us ! i)
           \<and> (phoneNumber (?us ! i) \<notin> set ms1 \<and> \<not> isActive (?us ! i)
                \<longrightarrow> users s1 ! i = ?us ! i \<and> UserWritten i \<notin> set tr1)"
    and new1: "\<forall>i<length (users s1). length ?us \<le> i \<longrightarrow>
           u_groupId (users s1 ! i) = g \<and> phoneNumber (users s1 ! i) \<in> set ms1"
    and ex1: "\<forall>p\<in>set ms1. \<exists>i<length (users s1).
           member_key (users s1 ! i) = (p, g) \<and> isActive (users s1 ! i)"
    and uq1: "unique_members g ?us \<longrightarrow> unique_members g (users s1)
           \<and> (\<forall>i<length (users s1). u_groupId (users s1 ! i) = g \<longrightarrow>
                 isActive (users s1 ! i) = (phoneNumber (users s1 ! i) \<in> set ms1))"
    by blast
  have f1: "faults s1 = []" and mon1: "g \<in> monitoredGroupsCache s1"
    and g1: "groups s1 = groups s"
    using same1 f mon by (simp_all add: same_store_but_users_def)
  have u1: "unique_members g (users s1)" using uq1 u0 by simp
  from syncGroupMembers_ok [OF f1 mon1, of ms2]
  obtain s2 tr2 where
    run2: "syncGroupMembers g ms2 s1 = Returns () s2"
    and same2: "same_store_but_users s1 s2"
    and len2: "length (users s1) \<le> length (users s2)"
    and old2: "\<forall>i<length (users s1). member_key (users s2 ! i) = member_key (users s1 ! i)
           \<and> (u_groupId (users s1 ! i) \<noteq> g \<longrightarrow> users s2 ! i = users s1 ! i)
           \<and> (phoneNumber (users s1 ! i) \<notin> set ms2 \<and> \<not> isActive (users s1 ! i)
                \<longrightarrow> users s2 ! i = users s1 ! i \<and> UserWritten i \<notin> set tr2)"
    and new2: "\<forall>i<length (users s2). length (users s1) \<le> i \<longrightarrow>
           u_groupId (users s2 ! i) = g \<and> phoneNumber (users s2 ! i) \<in> set ms2"
    and ex2: "\<forall>p\<in>set ms2. \<exists>i<length (users s2).
           member_key (users s2 ! i) = (p, g) \<and> isActive (users s2 ! i)"
    and uq2: "unique_members g (users s1) \<longrightarrow> unique_members g (users s2)
           \<and> (\<forall>i<length (users s2). u_groupId (users s2 ! i) = g \<longrightarrow>
                 isActive (users s2 ! i) = (phoneNumber (users s2 ! i) \<in> set ms2))"
    by blast
  have u2: "unique_members g (users s2)"
    and act2: "\<And>i. i < length (users s2) \<Longrightarrow> u_groupId (users s2 ! i) = g \<Longrightarrow>
                 isActive (users s2 ! i) = (phoneNumber (users s2 ! i) \<in> set ms2)"
    using uq2 u1 by simp_all
  have g2: "groups s2 = groups s"
    using same2 g1 by (simp add: same_store_but_users_def)
  have one: "\<exists>d. [u \<leftarrow> users s2. phoneNumber u = x \<and> u_groupId u = g] = [d]
                \<and> isActive d = (x \<in> set ms2)"
    if i: "i < length (users s2)" and k: "member_key (users s2 ! i) = (x, g)" for i x
  proof -
    from k have kx: "phoneNumber (users s2 ! i) = x" "u_groupId (users s2 ! i) = g"
      by (simp_all add: member_key_def)
    from unique_member_filter [OF u2 i k] act2 [OF i kx(2)] kx(1)
    show ?thesis by simp
  qed
  from ex1 r1 obtain i where i1: "i < length (users s1)"
    and ki: "member_key (users s1 ! i) = (A, g)"
    by auto
  from old2 i1 ki have "member_key (users s2 ! i) = (A, g)" by simp
  moreover from i1 len2 have "i < length (users s2)" by simp
  ultimately have "\<exists>d. [u \<leftarrow> users s2. phoneNumber u = A \<and> u_groupId u = g] = [d]
                \<and> isActive d = (A \<in> set ms2)"
    by (rule one [rotated])
  with r2 ne have A: "\<exists>a. [u \<leftarrow> users s2. phoneNumber u = A \<and> u_groupId u = g] = [a] \<and> \<not> isActive a"
    by auto
  from ex2 r2 obtain j where "j < length (users s2)" "member_key (users s2 ! j) = (B, g)"
    by auto
  from one [OF this] r2
  have B: "\<exists>b. [u \<leftarrow> users s2. phoneNumber u = B \<and> u_groupId u = g] = [b] \<and> isActive b"
    by auto
  from ex2 r2 obtain k where "k < length (users s2)" "member_key (users s2 ! k) = (C, g)"
    by auto
  from one [OF this] r2
  have C: "\<exists>c. [u \<leftarrow> users s2. phoneNumber u = C \<and> u_groupId u = g] = [c] \<and> isActive c"
    by auto
  have rest: "[u \<leftarrow> users s2. \<not> (u_groupId u = g \<and> phoneNumber u \<in> {A, B, C})] = ?us"
  proof (rule filter_prefix)
    show "length ?us \<le> length (users s2)" using len1 len2 by simp
  next
    fix n
    assume n: "n < length ?us"
    with none have ng: "u_groupId (?us ! n) \<noteq> g" by simp
    with old1 n have e1: "users s1 ! n = ?us ! n" by simp
    from n len1 have "n < length (users s1)" by simp
    with old2 e1 ng have "users s2 ! n = ?us ! n" by simp
    with ng show "users s2 ! n = ?us ! n
        \<and> \<not> (u_groupId (?us ! n) = g \<and> phoneNumber (?us ! n) \<in> {A, B, C})"
      by simp
  next
    fix n
    assume lo: "length ?us \<le> n" and hi: "n < length (users s2)"
    show "\<not> \<not> (u_groupId (users s2 ! n) = g \<and> phoneNumber (users s2 ! n) \<in> {A, B, C})"
    proof (cases "n < length (users s1)")
      case True
      with new1 lo r1 have "u_groupId (users s1 ! n) = g \<and> phoneNumber (users s1 ! n) \<in> {A, B}"
        by simp
      moreover from old2 True have "member_key (users s2 ! n) = member_key (users s1 ! n)" by simp
      ultimately show ?thesis by (auto simp: member_key_def)
    next
      case False
      with new2 hi r2 show ?thesis by auto
    qed
  qed
  show "\<exists>s1 s2. syncGroupMembers g ms1 s = Returns () s1
       \<and> syncGroupMembers g ms2 s1 = Returns () s2
       \<and> (\<exists>a. [u \<leftarrow> users s2. phoneNumber u = A \<and> u_groupId u = g] = [a] \<and> \<not> isActive a)
       \<and> (\<exists>b. [u \<leftarrow> users s2. phoneNumber u = B \<and> u_groupId u = g] = [b] \<and> isActive b)
       \<and> (\<exists>c. [u \<leftarrow> users s2. phoneNumber u = C \<and> u_groupId u = g] = [c] \<and> isActive c)
       \<and> [u \<leftarrow> users s2. \<not> (u_groupId u = g \<and> phoneNumber u \<in> {A, B, C})] = users s
       \<and> groups s2 = groups s"
    using run1 run2 A B C rest g2 by blast
next
  fix t :: state and ms :: "string list" and i :: nat
  assume h: "faults t = [] \<and> g \<in> monitoredGroupsCache t \<and> i < length (users t)
         \<and> phoneNumber (users t ! i) \<notin> set ms \<and> \<not> isActive (users t ! i)"
  then have ft: "faults t = []" and mt: "g \<in> monitoredGroupsCache t" by simp_all
  from syncGroupMembers_ok [OF ft mt, of ms]
  obtain t' tr where
    run: "syncGroupMembers g ms t = Returns () t'"
    and tr: "trace t' = trace t @ tr"
    and old: "\<forall>i<length (users t). member_key (users t' ! i) = member_key (users t ! i)
           \<and> (u_groupId (users t ! i) \<noteq> g \<longrightarrow> users t' ! i = users t ! i)
           \<and> (phoneNumber (users t ! i) \<notin> set ms \<and> \<not> isActive (users t ! i)
                \<longrightarrow> users t' ! i = users t ! i \<and> UserWritten i \<notin> set tr)"
    by blast
  from old h have "users t' ! i = users t ! i \<and> UserWritten i \<notin> set tr" by simp
  with run tr show "\<exists>t'. syncGroupMembers g ms t = Returns () t'
              \<and> users t' ! i = users t ! i
              \<and> UserWritten i \<notin> set (drop (length (trace t)) (trace t'))"
    by simp
qed

theorem sync_twice_witness:
  "(\<exists>s1 s2. syncGroupMembers ''g1@g.us'' [''111'', ''222''] example_store = Returns () s1
       \<and> syncGroupMembers ''g1@g.us'' [''222'', ''333''] s1 = Returns () s2
       \<and> (\<exists>a. [u \<leftarrow> users s2. phoneNumber u = ''111'' \<and> u_groupId u = ''g1@g.us''] = [a]
              \<and> \<not> isActive a)
       \<and> (\<exists>b. [u \<leftarrow> users s2. phoneNumber u = ''222'' \<and> u_groupId u = ''g1@g.us''] = [b]
              \<and> isActive b)
       \<and> (\<exists>c. [u \<leftarrow> users s2. phoneNumber u = ''333'' \<and> u_groupId u = ''g1@g.us''] = [c]
              \<and> isActive c)
       \<and> [u \<leftarrow> users s2. \<not> (u_groupId u = ''g1@g.us''
              \<and> phoneNumber u \<in> {''111'', ''222'', ''333''})] = users example_store
       \<and> groups s2 = groups example_store)
   \<and> (\<exists>t'. syncGroupMembers ''g1@g.us'' [''222'', ''333''] example_store_left = Returns () t'
         \<and> users t' ! 1 = users example_store_left ! 1
         \<and> UserWritten 1 \<notin> set (drop (length (trace example_store_left)) (trace t')))"
proof -
  have h1: "faults example_store = []"
    and h2: "''g1@g.us'' \<in> monitoredGroupsCache example_store"
    and h3: "\<forall>u\<in>set (users example_store). u_groupId u \<noteq> ''g1@g.us''"
    by (simp_all add: example_store_def)
  have h4: "set [''111'', ''222''] = {''111'', ''222''}"
    and h5: "set [''222'', ''333''] = {''222'', ''333''}"
    and h6: "''111'' \<noteq> ''222''" and h7: "''111'' \<noteq> ''333''"
    by simp_all
  note th = sync_twice [OF h1 h2 h3 h4 h5 h6 h7]
  have k: "faults example_store_left = [] \<and> ''g1@g.us'' \<in> monitoredGroupsCache example_store_left
         \<and> 1 < length (users example_store_left)
         \<and> phoneNumber (users example_store_left ! 1) \<notin> set [''222'', ''333'']
         \<and> \<not> isActive (users example_store_left ! 1)"
    by (simp add: example_store_left_def example_store_def)
  from th [THEN conjunct2, rule_format, OF k] th [THEN conjunct1]
  show ?thesis by blast
qed

section \<open>Frame properties of the incremental handlers\<close>

lemma preservesI: "(\<And>s. I s \<Longrightarrow> I (final (m s))) \<Longrightarrow> preserves I m"
  by (simp add: preserves_def)

lemma preservesD: "preserves I m \<Longrightarrow> I s \<Longrightarrow> I (final (m s))"
  by (simp add: preserves_def)

lemma preserves_returnM: "preserves I (returnM x)"
  by (simp add: preserves_def returnM_def)

lemma preserves_throwM: "preserves I (throwM e)"
  by (simp add: preserves_def throwM_def)

lemma preserves_Returns: "preserves I (Returns x)"
  by (simp add: preserves_def)

lemma preserves_bindM:
  assumes "preserves I m" and "\<And>x. preserves I (f x)"
  shows "preserves I (bindM m f)"
proof (rule preservesI)
  fix s assume s: "I s"
  from preservesD [OF assms(1) s] have m: "I (final (m s))" .
  show "I (final (bindM m f s))"
  proof (cases "m s")
    case (Returns x s')
    with m have "I s'" by simp
    from preservesD [OF assms(2) this] Returns show ?thesis by (simp add: bindM_def)
  next
    case (Throws e s')
    with m show ?thesis by (simp add: bindM_def)
  qed
qed

lemma preserves_tryCatch:
  assumes "preserves I m" and "\<And>e. preserves I (h e)"
  shows "preserves I (tryCatch m h)"
proof (rule preservesI)
  fix s assume s: "I s"
  from preservesD [OF assms(1) s] have m: "I (final (m s))" .
  show "I (final (tryCatch m h s))"
  proof (cases "m s")
    case (Returns x s')
    with m show ?thesis by (simp add: tryCatch_def)
  next
    case (Throws e s')
    with m have "I s'" by simp
    from preservesD [OF assms(2) this] Throws show ?thesis by (simp add: tryCatch_def)
  qed
qed

lemma preserves_forEach:
  assumes "\<And>x. x \<in> set xs \<Longrightarrow> preserves I (body x)"
  shows "preserves I (forEach xs body)"
  using assms
proof (induction xs)
  case Nil
  show ?case by (simp add: preserves_returnM)
next
  case (Cons x xs)
  show ?case
    by (simp, rule preserves_bindM) (simp_all add: Cons)
qed

lemma preserves_if:
  "(c \<Longrightarrow> preserves I a) \<Longrightarrow> (\<not> c \<Longrightarrow> preserves I b) \<Longrightarrow> preserves I (if c then a else b)"
  by simp

lemma preserves_state_if:
  "preserves I a \<Longrightarrow> preserves I b \<Longrightarrow> preserves I (\<lambda>s. if c s then a s else b s)"
  by (simp add: preserves_def)

lemma preserves_emit:
  "(\<And>s. I s \<Longrightarrow> I (s\<lparr>trace := trace s @ [ev]\<rparr>)) \<Longrightarrow> preserves I (emit ev)"
  by (simp add: preserves_def emit_def)

lemma preserves_new_Date:
  "(\<And>s. I s \<Longrightarrow> I (s\<lparr>clock := Suc (clock s)\<rparr>)) \<Longrightarrow> preserves I new_Date"
  by (simp add: preserves_def new_Date_def)

lemma preserves_store_call:
  "(\<And>s fs. I s \<Longrightarrow> I (s\<lparr>faults := fs\<rparr>)) \<Longrightarrow> preserves I store_call"
  by (auto simp: preserves_def store_call_def split: list.splits)

lemma users_untouched_refl: "users_untouched s s"
  by (simp add: users_untouched_def)

lemma users_untouched_logger: "preserves (users_untouched s) (logger l)"
  unfolding logger_def
  by (rule preserves_emit) (auto simp: users_untouched_def)

lemma users_untouched_new_Date: "preserves (users_untouched s) new_Date"
  by (rule preserves_new_Date) (simp add: users_untouched_def)

lemma users_untouched_store_call: "preserves (users_untouched s) store_call"
  by (rule preserves_store_call) (simp add: users_untouched_def)

lemma users_untouched_deactivate:
  assumes "\<forall>u\<in>set (users s). \<not> (phoneNumber u = p \<and> u_groupId u = g)"
  shows "preserves (users_untouched s) (User_deactivate p g t)"
  unfolding User_deactivate_def
proof (rule preserves_bindM [OF users_untouched_store_call], rule preservesI)
  fix x s'
  assume u: "users_untouched s s'"
  then have "users s' = users s" by (simp add: users_untouched_def)
  with assms have "first_index (\<lambda>u. phoneNumber u = p \<and> u_groupId u = g) (users s') = None"
    by (simp add: first_index_None)
  with u show "users_untouched s (final (case first_index (\<lambda>u. phoneNumber u = p \<and> u_groupId u = g) (users s') of
         None \<Rightarrow> Returns () s'
       | Some i \<Rightarrow>
           emit (UserWritten i)
             (s'\<lparr>users := (users s')[i := (users s' ! i)\<lparr>isActive := False, u_updatedAt := t\<rparr>]\<rparr>)))"
    by simp
qed

lemma users_untouched_handleMembersRemoved:
  assumes "\<forall>x\<in>set xs. \<forall>u\<in>set (users s). \<not> (phoneNumber u = x \<and> u_groupId u = g)"
  shows "preserves (users_untouched s) (handleMembersRemoved g xs)"
proof (rule preservesI)
  fix s'
  assume u: "users_untouched s s'"
  have loop: "preserves (users_untouched s)
      (forEach xs (\<lambda>phone. bindM new_Date (\<lambda>t. User_deactivate phone g t)))"
    by (rule preserves_forEach, rule preserves_bindM [OF users_untouched_new_Date],
        rule users_untouched_deactivate) (use assms in blast)
  have body: "preserves (users_untouched s)
      (tryCatch
        (bindM (forEach xs (\<lambda>phone. bindM new_Date (\<lambda>t. User_deactivate phone g t)))
           (\<lambda>_. logger Success))
        (\<lambda>e. bindM (logger Error) (\<lambda>_. throwM e)))"
    by (intro preserves_tryCatch preserves_bindM loop users_untouched_logger preserves_throwM)
  show "users_untouched s (final (handleMembersRemoved g xs s'))"
    using u preservesD [OF body u] by (simp add: handleMembersRemoved_def)
qed

lemma bindM_Returns: "m s = Returns x s' \<Longrightarrow> bindM m f s = f x s'"
  by (simp add: bindM_def)

lemma bindM_Throws: "m s = Throws e s' \<Longrightarrow> bindM m f s = Throws e s'"
  by (simp add: bindM_def)

lemma tryCatch_Returns: "m s = Returns x s' \<Longrightarrow> tryCatch m h s = Returns x s'"
  by (simp add: tryCatch_def)

lemma tryCatch_Throws: "m s = Throws e s' \<Longrightarrow> tryCatch m h s = h e s'"
  by (simp add: tryCatch_def)

lemma removal_loop_no_match:
  "faults s = [] \<Longrightarrow>
   \<forall>x\<in>set xs. \<forall>u\<in>set (users s). \<not> (phoneNumber u = x \<and> u_groupId u = g) \<Longrightarrow>
   forEach xs (\<lambda>phone. bindM new_Date (\<lambda>t. User_deactivate phone g t)) s
     = Returns () (s\<lparr>clock := clock s + length xs\<rparr>)"
proof (induction xs arbitrary: s)
  case Nil
  show ?case by (simp add: returnM_def)
next
  case (Cons x xs)
  let ?s0 = "s\<lparr>clock := Suc (clock s)\<rparr>"
  from Cons.prems have "first_index (\<lambda>u. phoneNumber u = x \<and> u_groupId u = g) (users ?s0) = None"
    by (simp add: first_index_None)
  with Cons.prems have step: "User_deactivate x g (clock s) ?s0 = Returns () ?s0"
    by (simp add: User_deactivate_def bindM_def store_call_ok)
  let ?B = "\<lambda>phone. bindM new_Date (\<lambda>t. User_deactivate phone g t)"
  from step have head: "?B x s = Returns () ?s0"
    by (simp add: bindM_def new_Date_run)
  have "forEach (x # xs) ?B s = bindM (?B x) (\<lambda>_. forEach xs ?B) s"
    by (simp only: forEach.simps)
  also have "\<dots> = forEach xs ?B ?s0"
    by (rule bindM_Returns) (rule head)
  also have "\<dots> = Returns () (?s0\<lparr>clock := clock ?s0 + length xs\<rparr>)"
    by (rule Cons.IH) (use Cons.prems in simp_all)
  finally show ?case by simp
qed

text \<open>
  C4. When the group is not in the in-memory monitored set, \<open>syncGroupMembers\<close>,
  \<open>handleMembersAdded\<close> and \<open>handleMembersRemoved\<close> return at once: the two
  incremental handlers leave the whole state as it is, and \<open>syncGroupMembers\<close> only
  logs a line; no membership record and no group record is created or modified.
\<close>

theorem unmonitored_noop:
  assumes "g \<notin> monitoredGroupsCache s"
  shows "syncGroupMembers g ms s = Returns () (s\<lparr>trace := trace s @ [Log Info]\<rparr>)
     \<and> handleMembersAdded g ms s = Returns () s
     \<and> handleMembersRemoved g ms s = Returns () s
     \<and> users (final (syncGroupMembers g ms s)) = users s
     \<and> groups (final (syncGroupMembers g ms s)) = groups s"
  using assms
  by (simp add: syncGroupMembers_def handleMembersAdded_def handleMembersRemoved_def
      isMonitoredGroup_def logger_def emit_def)

theorem unmonitored_noop_witness:
  "''other@g.us'' \<notin> monitoredGroupsCache example_store
   \<and> syncGroupMembers ''other@g.us'' [''111'', ''999''] example_store
       = Returns () (example_store\<lparr>trace := trace example_store @ [Log Info]\<rparr>)
   \<and> handleMembersAdded ''other@g.us'' [''111'', ''999''] example_store = Returns () example_store
   \<and> handleMembersRemoved ''other@g.us'' [''111'', ''999''] example_store = Returns () example_store"
proof -
  have h: "''other@g.us'' \<notin> monitoredGroupsCache example_store"
    by (simp add: example_store_def)
  from unmonitored_noop [OF h, of "[''111'', ''999'']"] h show ?thesis by blast
qed

text \<open>
  C10. \<open>handleMembersRemoved\<close> never creates a record: when none of the identifiers has
  a membership record in the group, the User collection is left as it is and no write to
  it is issued (whatever the store's faults); in a monitored group, with the store
  answering, the call returns having changed nothing but the clock and the log.
\<close>

theorem handleMembersRemoved_creates_nothing:
  assumes none: "\<forall>x\<in>set xs. \<forall>u\<in>set (users s). \<not> (phoneNumber u = x \<and> u_groupId u = g)"
  shows "users (final (handleMembersRemoved g xs s)) = users s
     \<and> (\<forall>i. UserWritten i \<notin> set (drop (length (trace s)) (trace (final (handleMembersRemoved g xs s)))))
     \<and> (g \<in> monitoredGroupsCache s \<and> faults s = [] \<longrightarrow>
          handleMembersRemoved g xs s
            = Returns () (s\<lparr>clock := clock s + length xs, trace := trace s @ [Log Success]\<rparr>))"
proof (intro conjI impI)
  from preservesD [OF users_untouched_handleMembersRemoved [OF none] users_untouched_refl]
  have u: "users_untouched s (final (handleMembersRemoved g xs s))" .
  then show "users (final (handleMembersRemoved g xs s)) = users s"
    by (simp add: users_untouched_def)
  from u show "\<forall>i. UserWritten i \<notin> set (drop (length (trace s)) (trace (final (handleMembersRemoved g xs s))))"
    by (auto simp: users_untouched_def)
next
  assume "g \<in> monitoredGroupsCache s \<and> faults s = []"
  then show "handleMembersRemoved g xs s
            = Returns () (s\<lparr>clock := clock s + length xs, trace := trace s @ [Log Success]\<rparr>)"
    using removal_loop_no_match [of s xs g] none
    by (simp add: handleMembersRemoved_def isMonitoredGroup_def tryCatch_def bindM_def
        logger_def emit_def)
qed

theorem handleMembersRemoved_creates_nothing_witness:
  "handleMembersRemoved ''g1@g.us'' [''555''] example_store
     = Returns () (example_store\<lparr>clock := 2, trace := [Log Success]\<rparr>)
   \<and> users (final (handleMembersRemoved ''g1@g.us'' [''555''] example_store)) = users example_store"
proof -
  have h: "\<forall>x\<in>set [''555'']. \<forall>u\<in>set (users example_store).
             \<not> (phoneNumber u = x \<and> u_groupId u = ''g1@g.us'')"
    by (simp add: example_store_def)
  have k: "''g1@g.us'' \<in> monitoredGroupsCache example_store \<and> faults example_store = []"
    by (simp add: example_store_def)
  note th = handleMembersRemoved_creates_nothing [OF h]
  from th [THEN conjunct2, THEN conjunct2, rule_format, OF k] th [THEN conjunct1]
  show ?thesis by (simp add: example_store_def)
qed

section \<open>The group registrar\<close>

lemma first_index_SomeI:
  "i < length xs \<Longrightarrow> P (xs ! i) \<Longrightarrow> (\<And>j. j < i \<Longrightarrow> \<not> P (xs ! j)) \<Longrightarrow> first_index P xs = Some i"
proof (induction xs arbitrary: i)
  case Nil
  then show ?case by simp
next
  case (Cons x xs)
  show ?case
  proof (cases i)
    case 0
    with Cons.prems show ?thesis by simp
  next
    case (Suc k)
    with Cons.prems(3) [of 0] have nx: "\<not> P x" by simp
    have "first_index P xs = Some k"
    proof (rule Cons.IH)
      show "k < length xs" using Cons.prems(1) Suc by simp
      show "P (xs ! k)" using Cons.prems(2) Suc by simp
      fix j assume "j < k"
      with Cons.prems(3) [of "Suc j"] Suc show "\<not> P (xs ! j)" by simp
    qed
    with nx Suc show ?thesis by simp
  qed
qed

lemma addGroupToMonitored_Returns:
  assumes "addGroupToMonitored g n s = Returns x s'"
  shows "groups s' = registered g n (clock s) (groups s)
     \<and> monitoredGroupsCache s' = insert g (monitoredGroupsCache s)
     \<and> users s' = users s \<and> faults s' = tl (faults s)
     \<and> reconnectAttempts s' = reconnectAttempts s"
  using assms
  by (auto simp: addGroupToMonitored_def tryCatch_def bindM_def new_Date_def store_call_def
      Group_upsert_monitored_def emit_def logger_def throwM_def isMonitoredGroup_def
      registered_def
      split: list.splits if_splits option.splits)

lemma addGroupToMonitored_ok:
  assumes "faults s = []"
  shows "\<exists>s'. addGroupToMonitored g n s = Returns () s'"
  using assms
  by (auto simp: addGroupToMonitored_def tryCatch_def bindM_def new_Date_def store_call_def
      Group_upsert_monitored_def emit_def logger_def isMonitoredGroup_def
      split: option.splits)

lemma registered_twice:
  "map without_time (registered g n t' (registered g n t gs)) = map without_time (registered g n t gs)"
proof (cases "first_index (\<lambda>d. groupId d = g) gs")
  case None
  let ?new = "\<lparr>groupId = g, isMonitored = True, name = n, updatedAt = t\<rparr>"
  from None have r: "registered g n t gs = gs @ [?new]" by (simp add: registered_def)
  have "first_index (\<lambda>d. groupId d = g) (gs @ [?new]) = Some (length gs)"
  proof (rule first_index_SomeI)
    fix j assume "j < length gs"
    with None show "\<not> groupId ((gs @ [?new]) ! j) = g"
      by (simp add: first_index_None nth_append)
  qed simp_all
  then show ?thesis
    unfolding r by (cases n) (simp_all add: registered_def without_time_def)
next
  case (Some i)
  let ?d = "(gs ! i)\<lparr>groupId := g, isMonitored := True,
            name := (case n of None \<Rightarrow> name (gs ! i) | Some x \<Rightarrow> Some x), updatedAt := t\<rparr>"
  from Some have r: "registered g n t gs = gs[i := ?d]" by (simp add: registered_def)
  from first_index_Some [OF Some] have i: "i < length gs" and before: "\<forall>j<i. groupId (gs ! j) \<noteq> g"
    by simp_all
  have "first_index (\<lambda>d. groupId d = g) (gs[i := ?d]) = Some i"
  proof (rule first_index_SomeI)
    fix j assume "j < i"
    with before show "\<not> groupId (gs[i := ?d] ! j) = g" by simp
  qed (use i in simp_all)
  then show ?thesis
    unfolding r using i by (cases n) (simp_all add: registered_def without_time_def map_update)
qed

lemma monitored_ids_without_time:
  "map groupId (filter isMonitored gs) = map groupId (filter isMonitored (map without_time gs))"
  by (induction gs) (simp_all add: without_time_def)

lemma registered_has:
  "\<exists>d\<in>set (registered g n t gs). groupId d = g \<and> isMonitored d"
proof (cases "first_index (\<lambda>d. groupId d = g) gs")
  case None
  then show ?thesis by (simp add: registered_def)
next
  case (Some i)
  from first_index_Some [OF Some] have i: "i < length gs" by simp
  let ?d = "(gs ! i)\<lparr>groupId := g, isMonitored := True,
            name := (case n of None \<Rightarrow> name (gs ! i) | Some x \<Rightarrow> Some x), updatedAt := t\<rparr>"
  have "?d \<in> set (gs[i := ?d])" using i by (simp add: set_update_memI)
  moreover have "groupId ?d = g \<and> isMonitored ?d" by simp
  ultimately have "\<exists>d\<in>set (gs[i := ?d]). groupId d = g \<and> isMonitored d" by blast
  with Some show ?thesis by (simp add: registered_def)
qed

text \<open>
  C3. With the store answering, a second \<open>addGroupToMonitored\<close> with the same
  arguments returns and leaves the persisted monitored set and the in-memory set as the
  first call left them; the Group collection differs at most in a timestamp, and the User
  collection is untouched.
\<close>

theorem addGroupToMonitored_idempotent:
  assumes f: "faults s = []"
  shows "\<exists>s1 s2. addGroupToMonitored g n s = Returns () s1
     \<and> addGroupToMonitored g n s1 = Returns () s2
     \<and> persistedMonitored s2 = persistedMonitored s1
     \<and> monitoredGroupsCache s2 = monitoredGroupsCache s1
     \<and> map without_time (groups s2) = map without_time (groups s1)
     \<and> users s2 = users s1
     \<and> g \<in> persistedMonitored s1 \<and> g \<in> monitoredGroupsCache s1"
proof -
  from addGroupToMonitored_ok [OF f] obtain s1 where r1: "addGroupToMonitored g n s = Returns () s1"
    by blast
  note e1 = addGroupToMonitored_Returns [OF r1]
  from e1 f have f1: "faults s1 = []" by simp
  from addGroupToMonitored_ok [OF f1] obtain s2 where r2: "addGroupToMonitored g n s1 = Returns () s2"
    by blast
  note e2 = addGroupToMonitored_Returns [OF r2]
  have gs: "map without_time (groups s2) = map without_time (groups s1)"
    using e1 e2 by (simp add: registered_twice)
  have pm: "persistedMonitored s2 = persistedMonitored s1"
    unfolding persistedMonitored_def
    using gs monitored_ids_without_time [of "groups s2"] monitored_ids_without_time [of "groups s1"]
    by simp
  have c: "monitoredGroupsCache s2 = monitoredGroupsCache s1"
    using e1 e2 by auto
  have "g \<in> persistedMonitored s1"
    using e1 registered_has [of g n "clock s" "groups s"]
    by (auto simp: persistedMonitored_def)
  with r1 r2 gs pm c e1 e2 show ?thesis by auto
qed
theorem addGroupToMonitored_idempotent_witness:
  "\<exists>s1 s2. addGroupToMonitored ''new@g.us'' (Some ''Neol Two'') example_store = Returns () s1
     \<and> addGroupToMonitored ''new@g.us'' (Some ''Neol Two'') s1 = Returns () s2
     \<and> persistedMonitored s2 = persistedMonitored s1
     \<and> monitoredGroupsCache s2 = monitoredGroupsCache s1
     \<and> map without_time (groups s2) = map without_time (groups s1)
     \<and> users s2 = users s1
     \<and> ''new@g.us'' \<in> persistedMonitored s1 \<and> ''new@g.us'' \<in> monitoredGroupsCache s1"
proof -
  have h: "faults example_store = []" by (simp add: example_store_def)
  from addGroupToMonitored_idempotent [OF h] show ?thesis .
qed

lemma registered_mono:
  "set (map groupId (filter isMonitored gs))
     \<subseteq> set (map groupId (filter isMonitored (registered g n t gs)))"
proof (cases "first_index (\<lambda>d. groupId d = g) gs")
  case None
  then show ?thesis by (auto simp: registered_def)
next
  case (Some i)
  let ?d = "(gs ! i)\<lparr>groupId := g, isMonitored := True,
            name := (case n of None \<Rightarrow> name (gs ! i) | Some x \<Rightarrow> Some x), updatedAt := t\<rparr>"
  from first_index_Some [OF Some] have i: "i < length gs" and gi: "groupId (gs ! i) = g"
    by simp_all
  have r: "registered g n t gs = gs[i := ?d]" using Some by (simp add: registered_def)
  show ?thesis
  proof
    fix h
    assume "h \<in> set (map groupId (filter isMonitored gs))"
    then obtain d where d: "d \<in> set gs" "isMonitored d" "groupId d = h" by auto
    then obtain j where j: "j < length gs" "gs ! j = d" by (auto simp: in_set_conv_nth)
    let ?e = "gs[i := ?d] ! j"
    have "?e \<in> set (gs[i := ?d])" using j by simp
    moreover have "isMonitored ?e \<and> groupId ?e = h"
      using j d gi i by (cases "j = i") simp_all
    ultimately show "h \<in> set (map groupId (filter isMonitored (registered g n t gs)))"
      unfolding r by force
  qed
qed

lemma addGroupToMonitored_Throws:
  assumes "addGroupToMonitored g n s = Throws e s'"
  shows "groups s' = groups s \<and> monitoredGroupsCache s' = monitoredGroupsCache s
     \<and> users s' = users s"
  using assms
  by (auto simp: addGroupToMonitored_def tryCatch_def bindM_def new_Date_def store_call_def
      Group_upsert_monitored_def emit_def logger_def throwM_def isMonitoredGroup_def
      split: list.splits if_splits option.splits)

lemma addGroupToMonitored_grows:
  "monitoredGroupsCache s \<subseteq> monitoredGroupsCache (final (addGroupToMonitored g n s))
   \<and> persistedMonitored s \<subseteq> persistedMonitored (final (addGroupToMonitored g n s))"
proof (cases "addGroupToMonitored g n s")
  case (Returns x s')
  from addGroupToMonitored_Returns [OF Returns] registered_mono [of "groups s" g n "clock s"]
  show ?thesis by (auto simp: Returns persistedMonitored_def)
next
  case (Throws e s')
  from addGroupToMonitored_Throws [OF Throws] show ?thesis
    by (simp add: Throws persistedMonitored_def)
qed

lemma add_keeps_cache_within_store: "preserves cache_within_store (addGroupToMonitored g n)"
proof (rule preservesI)
  fix s assume inv: "cache_within_store s"
  show "cache_within_store (final (addGroupToMonitored g n s))"
  proof (cases "addGroupToMonitored g n s")
    case (Returns x s')
    note e = addGroupToMonitored_Returns [OF Returns]
    from e registered_has [of g n "clock s" "groups s"]
    have "g \<in> persistedMonitored s'" by (auto simp: persistedMonitored_def)
    moreover from addGroupToMonitored_grows [of s g n] Returns
    have "persistedMonitored s \<subseteq> persistedMonitored s'" by simp
    ultimately show ?thesis
      using inv e by (auto simp: Returns cache_within_store_def)
  next
    case (Throws e s')
    from addGroupToMonitored_Throws [OF Throws] inv show ?thesis
      by (simp add: Throws cache_within_store_def persistedMonitored_def)
  qed
qed

lemma removeGroupFromMonitored_final:
  "(groups (final (removeGroupFromMonitored g s)) = groups s
      \<and> monitoredGroupsCache (final (removeGroupFromMonitored g s)) = monitoredGroupsCache s)
   \<or> (monitoredGroupsCache (final (removeGroupFromMonitored g s)) = monitoredGroupsCache s - {g}
      \<and> (groups (final (removeGroupFromMonitored g s)) = groups s
          \<or> (\<exists>i<length (groups s). groupId (groups s ! i) = g
               \<and> groups (final (removeGroupFromMonitored g s))
                   = (groups s)[i := (groups s ! i)\<lparr>isMonitored := False, updatedAt := clock s\<rparr>])))"
proof (cases "first_index (\<lambda>d. groupId d = g) (groups s)")
  case None
  then show ?thesis
    by (auto simp: removeGroupFromMonitored_def tryCatch_def bindM_def store_call_def new_Date_def
        Group_clear_monitored_def emit_def logger_def throwM_def isMonitoredGroup_def
        split: list.splits if_splits)
next
  case (Some i)
  from first_index_Some [OF Some] have "i < length (groups s)" "groupId (groups s ! i) = g"
    by simp_all
  with Some show ?thesis
    by (auto simp: removeGroupFromMonitored_def tryCatch_def bindM_def store_call_def new_Date_def
        Group_clear_monitored_def emit_def logger_def throwM_def isMonitoredGroup_def
        split: list.splits if_splits)
qed

lemma remove_keeps_cache_within_store: "preserves cache_within_store (removeGroupFromMonitored g)"
proof (rule preservesI)
  fix s assume inv: "cache_within_store s"
  let ?s' = "final (removeGroupFromMonitored g s)"
  from removeGroupFromMonitored_final [of g s]
  consider (same) "groups ?s' = groups s" "monitoredGroupsCache ?s' \<subseteq> monitoredGroupsCache s"
    | (cleared) i where "monitoredGroupsCache ?s' = monitoredGroupsCache s - {g}"
        "i < length (groups s)" "groupId (groups s ! i) = g"
        "groups ?s' = (groups s)[i := (groups s ! i)\<lparr>isMonitored := False, updatedAt := clock s\<rparr>]"
    by auto
  then show "cache_within_store ?s'"
  proof cases
    case same
    with inv show ?thesis by (auto simp: cache_within_store_def persistedMonitored_def)
  next
    case cleared
    show ?thesis
      unfolding cache_within_store_def
    proof
      fix h assume "h \<in> monitoredGroupsCache ?s'"
      with cleared(1) have hc: "h \<in> monitoredGroupsCache s" and hg: "h \<noteq> g" by simp_all
      from hc inv obtain d where d: "d \<in> set (groups s)" "isMonitored d" "groupId d = h"
        by (auto simp: cache_within_store_def persistedMonitored_def)
      then obtain j where j: "j < length (groups s)" "groups s ! j = d"
        by (auto simp: in_set_conv_nth)
      with d hg cleared(3) have ji: "j \<noteq> i" by auto
      let ?gs' = "(groups s)[i := (groups s ! i)\<lparr>isMonitored := False, updatedAt := clock s\<rparr>]"
      have "?gs' ! j = d" using ji j by simp
      moreover have "?gs' ! j \<in> set ?gs'" using j by simp
      ultimately have "d \<in> set ?gs'" by simp
      with d cleared(4) show "h \<in> persistedMonitored ?s'"
        by (force simp: persistedMonitored_def)
    qed
  qed
qed

lemma loadMonitoredGroups_Returns:
  assumes "loadMonitoredGroups s = Returns x s'"
  shows "monitoredGroupsCache s' = persistedMonitored s'"
  using assms
  by (auto simp: loadMonitoredGroups_def tryCatch_def bindM_def store_call_def
      Group_find_monitored_def emit_def logger_def throwM_def persistedMonitored_def
      split: list.splits if_splits)

lemma run_mutations_keeps:
  "cache_within_store s \<Longrightarrow> cache_within_store (run_mutations ms s)"
proof (induction ms arbitrary: s)
  case Nil
  then show ?case by simp
next
  case (Cons m ms)
  have "cache_within_store (final (mutate m s))"
    by (cases m)
      (simp_all add: preservesD [OF add_keeps_cache_within_store Cons.prems]
        preservesD [OF remove_keeps_cache_within_store Cons.prems])
  from Cons.IH [OF this] show ?case by simp
qed

text \<open>
  C9. After a completed \<open>loadMonitoredGroups\<close> every identifier in the in-memory set
  has a persisted Group record with \<open>isMonitored = true\<close>, and this stays so after any
  sequence of \<open>addGroupToMonitored\<close> and \<open>removeGroupFromMonitored\<close> calls; each
  of the two mutations keeps the inclusion from any state in which it holds.
\<close>

theorem cache_within_persisted:
  "(loadMonitoredGroups s = Returns () s' \<longrightarrow>
      monitoredGroupsCache s' \<subseteq> persistedMonitored s'
      \<and> (\<forall>ms. monitoredGroupsCache (run_mutations ms s')
                 \<subseteq> persistedMonitored (run_mutations ms s')))
   \<and> (monitoredGroupsCache s \<subseteq> persistedMonitored s \<longrightarrow>
        monitoredGroupsCache (final (addGroupToMonitored g n s))
          \<subseteq> persistedMonitored (final (addGroupToMonitored g n s))
        \<and> monitoredGroupsCache (final (removeGroupFromMonitored g s))
          \<subseteq> persistedMonitored (final (removeGroupFromMonitored g s)))"
proof (intro conjI impI allI)
  assume l: "loadMonitoredGroups s = Returns () s'"
  from loadMonitoredGroups_Returns [OF l]
  show "monitoredGroupsCache s' \<subseteq> persistedMonitored s'" by simp
  then have "cache_within_store s'" by (simp add: cache_within_store_def)
  from run_mutations_keeps [OF this]
  show "monitoredGroupsCache (run_mutations ms s') \<subseteq> persistedMonitored (run_mutations ms s')" for ms
    by (simp add: cache_within_store_def)
next
  assume "monitoredGroupsCache s \<subseteq> persistedMonitored s"
  then have inv: "cache_within_store s" by (simp add: cache_within_store_def)
  from preservesD [OF add_keeps_cache_within_store inv]
  show "monitoredGroupsCache (final (addGroupToMonitored g n s))
          \<subseteq> persistedMonitored (final (addGroupToMonitored g n s))"
    by (simp add: cache_within_store_def)
  from preservesD [OF remove_keeps_cache_within_store inv]
  show "monitoredGroupsCache (final (removeGroupFromMonitored g s))
          \<subseteq> persistedMonitored (final (removeGroupFromMonitored g s))"
    by (simp add: cache_within_store_def)
qed
theorem cache_within_persisted_witness:
  "loadMonitoredGroups (example_store\<lparr>monitoredGroupsCache := {}\<rparr>)
     = Returns () (example_store\<lparr>trace := [Log Info]\<rparr>)
   \<and> monitoredGroupsCache (example_store\<lparr>trace := [Log Info]\<rparr>)
       \<subseteq> persistedMonitored (example_store\<lparr>trace := [Log Info]\<rparr>)
   \<and> monitoredGroupsCache
         (run_mutations [AddGroup ''x@g.us'' None, RemoveGroup ''g1@g.us'']
            (example_store\<lparr>trace := [Log Info]\<rparr>))
       \<subseteq> persistedMonitored
           (run_mutations [AddGroup ''x@g.us'' None, RemoveGroup ''g1@g.us'']
              (example_store\<lparr>trace := [Log Info]\<rparr>))"
proof -
  have l: "loadMonitoredGroups (example_store\<lparr>monitoredGroupsCache := {}\<rparr>)
     = Returns () (example_store\<lparr>trace := [Log Info]\<rparr>)"
    by (simp add: loadMonitoredGroups_def tryCatch_def bindM_def store_call_def
        Group_find_monitored_def emit_def logger_def example_store_def)
  from cache_within_persisted [THEN conjunct1, rule_format, OF l] l
  show ?thesis by blast
qed

section \<open>Invariants of the event handlers\<close>

lemma registry_leaf:
  assumes "registry_only I"
    and "\<And>s. groups (final (m s)) = groups s
          \<and> monitoredGroupsCache (final (m s)) = monitoredGroupsCache s"
  shows "preserves I m"
  using assms unfolding registry_only_def preserves_def by blast

lemma registry_emit: "registry_only I \<Longrightarrow> preserves I (emit ev)"
  by (rule registry_leaf) (simp_all add: emit_def)

lemma registry_logger: "registry_only I \<Longrightarrow> preserves I (logger l)"
  by (simp add: logger_def registry_emit)

lemma registry_new_Date: "registry_only I \<Longrightarrow> preserves I new_Date"
  by (rule registry_leaf) (simp_all add: new_Date_def)

lemma registry_store_call: "registry_only I \<Longrightarrow> preserves I store_call"
  by (rule registry_leaf) (auto simp: store_call_def split: list.splits)

lemma registry_User_find: "registry_only I \<Longrightarrow> preserves I (User_find g)"
  by (rule registry_leaf)
    (auto simp: User_find_def bindM_def store_call_def split: list.splits)

lemma registry_User_upsert_active: "registry_only I \<Longrightarrow> preserves I (User_upsert_active p g t)"
  by (rule registry_leaf)
    (auto simp: User_upsert_active_def bindM_def store_call_def emit_def
      split: list.splits option.splits)

lemma registry_User_deactivate_by_id: "registry_only I \<Longrightarrow> preserves I (User_deactivate_by_id i t)"
  by (rule registry_leaf)
    (auto simp: User_deactivate_by_id_def bindM_def store_call_def emit_def
      split: list.splits)

lemma registry_User_deactivate: "registry_only I \<Longrightarrow> preserves I (User_deactivate p g t)"
  by (rule registry_leaf)
    (auto simp: User_deactivate_def bindM_def store_call_def emit_def
      split: list.splits option.splits)

lemma registry_User_count: "registry_only I \<Longrightarrow> preserves I (User_count g)"
  by (rule registry_leaf)
    (auto simp: User_count_def bindM_def store_call_def split: list.splits)

lemma registry_User_count_active: "registry_only I \<Longrightarrow> preserves I (User_count_active g)"
  by (rule registry_leaf)
    (auto simp: User_count_active_def bindM_def store_call_def split: list.splits)

lemma registry_Group_find_monitored: "registry_only I \<Longrightarrow> preserves I Group_find_monitored"
  by (rule registry_leaf)
    (auto simp: Group_find_monitored_def bindM_def store_call_def split: list.splits)

lemma preserves_case_option:
  "preserves I a \<Longrightarrow> (\<And>x. preserves I (b x)) \<Longrightarrow>
   preserves I (case v of None \<Rightarrow> a | Some x \<Rightarrow> b x)"
  by (cases v) simp_all

lemma preserves_case_sum:
  "(\<And>x. preserves I (a x)) \<Longrightarrow> (\<And>x. preserves I (b x)) \<Longrightarrow>
   preserves I (case v of Inl x \<Rightarrow> a x | Inr x \<Rightarrow> b x)"
  by (cases v) simp_all

lemma preserves_case_prod:
  "(\<And>a b. preserves I (f a b)) \<Longrightarrow> preserves I (case v of (a, b) \<Rightarrow> f a b)"
  by (cases v) simp

lemma registry_upsertMembers: "registry_only I \<Longrightarrow> preserves I (upsertMembers g ms P)"
proof (induction ms arbitrary: P)
  case Nil
  show ?case by (simp add: preserves_returnM)
next
  case (Cons p ps)
  show ?case
    by (simp, intro preserves_bindM registry_new_Date registry_User_upsert_active Cons)
qed

lemma registry_deactivateMissing: "registry_only I \<Longrightarrow> preserves I (deactivateMissing es P)"
proof (induction es P rule: deactivateMissing.induct)
  case (1 P)
  show ?case by (simp add: preserves_returnM)
next
  case (2 phone i member rest P)
  show ?case
  proof (cases "phone \<notin> P \<and> isActive member")
    case True
    have "preserves I (bindM new_Date (\<lambda>t. bindM (User_deactivate_by_id i t) (\<lambda>_. deactivateMissing rest P)))"
      by (intro preserves_bindM registry_new_Date registry_User_deactivate_by_id 2 True)
    with True show ?thesis by simp
  next
    case False
    with 2 show ?thesis by auto
  qed
qed

lemma registry_syncGroupMembers: "registry_only I \<Longrightarrow> preserves I (syncGroupMembers g ms)"
proof (rule preservesI)
  fix s assume r: "registry_only I" and s: "I s"
  have body: "preserves I
      (tryCatch
        (bindM (User_find g) (\<lambda>existingMembers.
         bindM (upsertMembers g ms {}) (\<lambda>processedMembers.
         bindM (deactivateMissing
                  (new_Map (map (\<lambda>(i, member). (phoneNumber member, (i, member)))
                     existingMembers))
                  processedMembers) (\<lambda>_.
           logger Success))))
        (\<lambda>e. bindM (logger Error) (\<lambda>_. throwM e)))"
    by (intro preserves_tryCatch preserves_bindM registry_User_find registry_upsertMembers
        registry_deactivateMissing registry_logger preserves_throwM r)
  show "I (final (syncGroupMembers g ms s))"
    using preservesD [OF body s] preservesD [OF registry_logger [OF r] s]
    by (simp add: syncGroupMembers_def Let_def)
qed

lemma registry_handleMembersAdded: "registry_only I \<Longrightarrow> preserves I (handleMembersAdded g ms)"
proof (rule preservesI)
  fix s assume r: "registry_only I" and s: "I s"
  have body: "preserves I
      (tryCatch
        (bindM (forEach ms (\<lambda>phone.
           bindM new_Date (\<lambda>t. User_upsert_active phone g t))) (\<lambda>_.
           logger Success))
        (\<lambda>e. bindM (logger Error) (\<lambda>_. throwM e)))"
    by (intro preserves_tryCatch preserves_bindM preserves_forEach registry_new_Date
        registry_User_upsert_active registry_logger preserves_throwM r)
  show "I (final (handleMembersAdded g ms s))"
    using preservesD [OF body s] s by (simp add: handleMembersAdded_def)
qed

lemma registry_handleMembersRemoved: "registry_only I \<Longrightarrow> preserves I (handleMembersRemoved g ms)"
proof (rule preservesI)
  fix s assume r: "registry_only I" and s: "I s"
  have body: "preserves I
      (tryCatch
        (bindM (forEach ms (\<lambda>phone.
           bindM new_Date (\<lambda>t. User_deactivate phone g t))) (\<lambda>_.
           logger Success))
        (\<lambda>e. bindM (logger Error) (\<lambda>_. throwM e)))"
    by (intro preserves_tryCatch preserves_bindM preserves_forEach registry_new_Date
        registry_User_deactivate registry_logger preserves_throwM r)
  show "I (final (handleMembersRemoved g ms s))"
    using preservesD [OF body s] s by (simp add: handleMembersRemoved_def)
qed

lemma registry_statusLoop: "registry_only I \<Longrightarrow> preserves I (statusLoop gs acc)"
proof (induction gs acc rule: statusLoop.induct)
  case (1 acc)
  show ?case by (simp add: preserves_returnM)
next
  case (2 g rest target forced details)
  show ?case
    by (subst statusLoop.simps,
        intro preserves_bindM registry_User_count registry_User_count_active 2)
qed

lemma registry_getDatabaseStatus: "registry_only I \<Longrightarrow> preserves I getDatabaseStatus"
  unfolding getDatabaseStatus_def
  by (intro preserves_tryCatch preserves_bindM registry_Group_find_monitored
      registry_statusLoop preserves_case_prod preserves_returnM registry_logger preserves_throwM)

lemma registry_getGroupMetadata: "registry_only I \<Longrightarrow> preserves I (getGroupMetadata sock g)"
  unfolding getGroupMetadata_def
  by (intro preserves_case_option preserves_case_sum preserves_bindM registry_logger
      preserves_returnM)

lemma registry_sendMessage: "registry_only I \<Longrightarrow> preserves I (sendMessage sock to)"
  unfolding sendMessage_def
  by (intro preserves_case_option preserves_if registry_logger registry_emit)

lemma handler_invariant_registry: "handler_invariant I \<Longrightarrow> registry_only I"
  by (simp add: handler_invariant_def)

lemma handler_invariant_add: "handler_invariant I \<Longrightarrow> preserves I (addGroupToMonitored g n)"
  by (simp add: handler_invariant_def)

lemmas handler_steps =
  preserves_bindM preserves_tryCatch preserves_forEach preserves_returnM preserves_throwM
  preserves_case_option preserves_case_sum preserves_case_prod preserves_if
  handler_invariant_add
  registry_logger [OF handler_invariant_registry]
  registry_emit [OF handler_invariant_registry]
  registry_syncGroupMembers [OF handler_invariant_registry]
  registry_handleMembersAdded [OF handler_invariant_registry]
  registry_handleMembersRemoved [OF handler_invariant_registry]
  registry_getDatabaseStatus [OF handler_invariant_registry]
  registry_getGroupMetadata [OF handler_invariant_registry]
  registry_sendMessage [OF handler_invariant_registry]

lemma kept_fetchAndMonitorTargetGroups:
  "handler_invariant I \<Longrightarrow> preserves I (fetchAndMonitorTargetGroups sock)"
  unfolding fetchAndMonitorTargetGroups_def
  by (intro handler_steps) assumption+

lemma kept_handleConnectionUpdate:
  "handler_invariant I \<Longrightarrow> preserves I (handleConnectionUpdate sock update)"
  unfolding handleConnectionUpdate_def
  by (intro handler_steps kept_fetchAndMonitorTargetGroups) assumption+

lemma kept_applyParticipantAction:
  "handler_invariant I \<Longrightarrow> preserves I (applyParticipantAction g ms act)"
  unfolding applyParticipantAction_def
  by (intro handler_steps) assumption+

lemma kept_handleGroupParticipantsUpdate:
  assumes h: "handler_invariant I"
  shows "preserves I (handleGroupParticipantsUpdate sock g ms act)"
proof (rule preservesI)
  fix s assume s: "I s"
  have a: "preserves I
      (tryCatch
        (bindM (getGroupMetadata sock g) (\<lambda>found.
           case found of
             None \<Rightarrow> returnM ()
           | Some metadata \<Rightarrow>
               if isTargetGroup (Some (subject metadata))
               then bindM (logger Info) (\<lambda>_.
                    bindM (addGroupToMonitored g (Some (subject metadata))) (\<lambda>_.
                    bindM (syncGroupMembers g (participants metadata)) (\<lambda>_.
                    bindM (logger Success) (\<lambda>_.
                      applyParticipantAction g ms act))))
               else logger Info))
        (\<lambda>e. logger Error))"
    by (intro handler_steps kept_applyParticipantAction) (rule h)+
  have b: "preserves I (bindM (logger Info) (\<lambda>_. applyParticipantAction g ms act))"
    by (intro handler_steps kept_applyParticipantAction) (rule h)+
  show "I (final (handleGroupParticipantsUpdate sock g ms act s))"
    using preservesD [OF a s] preservesD [OF b s]
    by (simp add: handleGroupParticipantsUpdate_def)
qed

lemma kept_handleGroupUpdate:
  assumes h: "handler_invariant I"
  shows "preserves I (handleGroupUpdate sock update)"
  unfolding handleGroupUpdate_def
  by (intro handler_steps preserves_state_if preserves_Returns) (rule h)+

lemma kept_handleGroupsUpdate:
  "handler_invariant I \<Longrightarrow> preserves I (handleGroupsUpdate sock updates)"
  unfolding handleGroupsUpdate_def
  by (intro preserves_forEach kept_handleGroupUpdate)

lemma kept_handleGroupsUpsert:
  "handler_invariant I \<Longrightarrow> preserves I (handleGroupsUpsert sock newGroups)"
  unfolding handleGroupsUpsert_def
  by (intro handler_steps) assumption+

lemma kept_handleHiCommand: "handler_invariant I \<Longrightarrow> preserves I (handleHiCommand sock jid)"
  unfolding handleHiCommand_def
  by (intro handler_steps) assumption+

lemma kept_handleSyncCommand: "handler_invariant I \<Longrightarrow> preserves I (handleSyncCommand sock jid)"
  unfolding handleSyncCommand_def
  by (intro handler_steps) assumption+

lemma kept_handleCheckCommand: "handler_invariant I \<Longrightarrow> preserves I (handleCheckCommand sock jid)"
  unfolding handleCheckCommand_def
  by (intro handler_steps) assumption+

lemma kept_handleMessage: "handler_invariant I \<Longrightarrow> preserves I (handleMessage sock m)"
  unfolding handleMessage_def
  by (intro handler_steps kept_handleHiCommand kept_handleSyncCommand kept_handleCheckCommand)
    assumption+

lemma kept_handleMessagesUpsert:
  "handler_invariant I \<Longrightarrow> preserves I (handleMessagesUpsert sock messages)"
  unfolding handleMessagesUpsert_def
  by (intro preserves_forEach kept_handleMessage)

lemma kept_afterConnectionUpdate:
  assumes "registry_only I" and "I s"
  shows "I (after (afterConnectionUpdate update s))"
proof -
  have "groups (after (afterConnectionUpdate update s)) = groups s
     \<and> monitoredGroupsCache (after (afterConnectionUpdate update s)) = monitoredGroupsCache s"
    by (simp add: afterConnectionUpdate_def clearAuthState_def bindM_def logger_def emit_def
        split: auth_dir.split)
  with assms show ?thesis unfolding registry_only_def by blast
qed

lemma after_settle: "after (settle out) = final out"
  by (cases out) simp_all

lemma kept_dispatch:
  assumes h: "handler_invariant I" and s: "I s"
  shows "I (after (dispatch sock ev s))"
proof (cases ev)
  case (ConnectionUpdate update)
  from preservesD [OF kept_handleConnectionUpdate [OF h] s]
  have m: "I (final (handleConnectionUpdate sock update s))" .
  show ?thesis
  proof (cases "handleConnectionUpdate sock update s")
    case (Returns x s')
    with m have "I s'" by simp
    from kept_afterConnectionUpdate [OF handler_invariant_registry [OF h] this]
    show ?thesis by (simp add: ConnectionUpdate Returns)
  next
    case (Throws e s')
    with m show ?thesis by (simp add: ConnectionUpdate)
  qed
next
  case (GroupParticipantsUpdate g ms act)
  from preservesD [OF kept_handleGroupParticipantsUpdate [OF h] s]
  show ?thesis by (simp add: GroupParticipantsUpdate after_settle)
next
  case (GroupsUpdate updates)
  from preservesD [OF kept_handleGroupsUpdate [OF h] s]
  show ?thesis by (simp add: GroupsUpdate after_settle)
next
  case (GroupsUpsert newGroups)
  from preservesD [OF kept_handleGroupsUpsert [OF h] s]
  show ?thesis by (simp add: GroupsUpsert after_settle)
next
  case (MessagesUpsert messages)
  from preservesD [OF kept_handleMessagesUpsert [OF h] s]
  show ?thesis by (simp add: MessagesUpsert after_settle)
qed

lemma monitoring_kept_invariant: "handler_invariant (monitoring_kept c p)"
  unfolding handler_invariant_def
proof (intro conjI allI)
  show "registry_only (monitoring_kept c p)"
    by (simp add: registry_only_def monitoring_kept_def persistedMonitored_def)
  fix g n
  show "preserves (monitoring_kept c p) (addGroupToMonitored g n)"
  proof (rule preservesI)
    fix s assume "monitoring_kept c p s"
    with addGroupToMonitored_grows [of s g n]
    show "monitoring_kept c p (final (addGroupToMonitored g n s))"
      by (auto simp: monitoring_kept_def)
  qed
qed

lemma addGroupToMonitored_trace:
  assumes "addGroupToMonitored g n s = Returns x s'"
  shows "\<exists>i l. trace s' = trace s @ [GroupWritten i, Log l]"
  using assms
  by (auto simp: addGroupToMonitored_def tryCatch_def bindM_def new_Date_def store_call_def
      Group_upsert_monitored_def emit_def logger_def throwM_def isMonitoredGroup_def
      split: list.splits if_splits option.splits)

lemma registered_named:
  "\<exists>d\<in>set (registered g (Some nm) t gs). groupId d = g \<and> isMonitored d \<and> name d = Some nm"
proof (cases "first_index (\<lambda>d. groupId d = g) gs")
  case None
  then show ?thesis by (simp add: registered_def)
next
  case (Some i)
  from first_index_Some [OF Some] have i: "i < length gs" by simp
  let ?d = "(gs ! i)\<lparr>groupId := g, isMonitored := True, name := Some nm, updatedAt := t\<rparr>"
  have "?d \<in> set (gs[i := ?d])" using i by (simp add: set_update_memI)
  moreover have "groupId ?d = g \<and> isMonitored ?d \<and> name ?d = Some nm" by simp
  ultimately have "\<exists>d\<in>set (gs[i := ?d]). groupId d = g \<and> isMonitored d \<and> name d = Some nm"
    by blast
  with Some show ?thesis by (simp add: registered_def)
qed

text \<open>
  C7. Handling an event never removes a group from monitoring: whatever the event, the
  socket and the store's faults, the in-memory set and the persisted monitored set after
  the dispatch contain what they contained before. In particular a rename of a monitored
  group to a name that does not match the keyword (store answering) completes, stores the
  new name, logs a warning, and leaves the group in both sets.
\<close>

theorem monitoring_is_sticky:
  "monitoredGroupsCache s \<subseteq> monitoredGroupsCache (after (dispatch sock ev s))
   \<and> persistedMonitored s \<subseteq> persistedMonitored (after (dispatch sock ev s))
   \<and> (g \<in> monitoredGroupsCache s \<and> g \<noteq> [] \<and> newName \<noteq> []
        \<and> \<not> isTargetGroup (Some newName) \<and> faults s = [] \<longrightarrow>
      (\<exists>s'. dispatch sock (GroupsUpdate [\<lparr>update_id = Some g, update_subject = Some newName\<rparr>]) s
              = Completed s'
         \<and> g \<in> monitoredGroupsCache s' \<and> g \<in> persistedMonitored s'
         \<and> (\<exists>d\<in>set (groups s'). groupId d = g \<and> isMonitored d \<and> name d = Some newName)
         \<and> Log Warn \<in> set (drop (length (trace s)) (trace s'))))"
proof (intro conjI impI)
  have "monitoring_kept (monitoredGroupsCache s) (persistedMonitored s) s"
    by (simp add: monitoring_kept_def)
  from kept_dispatch [OF monitoring_kept_invariant this, of sock ev]
  show "monitoredGroupsCache s \<subseteq> monitoredGroupsCache (after (dispatch sock ev s))"
    and "persistedMonitored s \<subseteq> persistedMonitored (after (dispatch sock ev s))"
    by (simp_all add: monitoring_kept_def)
next
  assume a: "g \<in> monitoredGroupsCache s \<and> g \<noteq> [] \<and> newName \<noteq> []
        \<and> \<not> isTargetGroup (Some newName) \<and> faults s = []"
  let ?u = "\<lparr>update_id = Some g, update_subject = Some newName\<rparr>"
  let ?sa = "s\<lparr>trace := trace s @ [Log Info]\<rparr>"
  have fa: "faults ?sa = []" using a by simp
  from addGroupToMonitored_ok [OF fa] obtain sb where
    rb: "addGroupToMonitored g (Some newName) ?sa = Returns () sb" by blast
  note eb = addGroupToMonitored_Returns [OF rb]
  from addGroupToMonitored_trace [OF rb] obtain i l where
    tb: "trace sb = trace s @ [Log Info, GroupWritten i, Log l]" by auto
  let ?s' = "sb\<lparr>trace := trace sb @ [Log Info, Log Warn]\<rparr>"
  from a have a1: "g \<in> monitoredGroupsCache s" and a2: "g \<noteq> []" and a3: "newName \<noteq> []"
    and a4: "\<not> isTargetGroup (Some newName)"
    by blast+
  have one: "handleGroupUpdate sock ?u s = Returns () ?s'"
    using a1 a2 a3 a4 rb
    by (simp add: handleGroupUpdate_def bindM_def logger_def emit_def isMonitoredGroup_def
        del: isTargetGroup.simps)
  have run: "dispatch sock (GroupsUpdate [?u]) s = Completed ?s'"
    using one by (simp add: handleGroupsUpdate_def bindM_def returnM_def)
  have c: "g \<in> monitoredGroupsCache ?s'" using eb by simp
  from registered_named [of g newName "clock ?sa" "groups ?sa"] eb
  have d: "\<exists>d\<in>set (groups ?s'). groupId d = g \<and> isMonitored d \<and> name d = Some newName"
    by simp
  then have p: "g \<in> persistedMonitored ?s'"
    by (force simp: persistedMonitored_def)
  have w: "Log Warn \<in> set (drop (length (trace s)) (trace ?s'))"
    using tb by simp
  from run c p d w
  show "\<exists>s'. dispatch sock (GroupsUpdate [?u]) s = Completed s'
         \<and> g \<in> monitoredGroupsCache s' \<and> g \<in> persistedMonitored s'
         \<and> (\<exists>d\<in>set (groups s'). groupId d = g \<and> isMonitored d \<and> name d = Some newName)
         \<and> Log Warn \<in> set (drop (length (trace s)) (trace s'))"
    by blast
qed
theorem monitoring_is_sticky_witness:
  "\<exists>s'. dispatch None
          (GroupsUpdate [\<lparr>update_id = Some ''g1@g.us'', update_subject = Some ''Random Chat''\<rparr>])
          example_store = Completed s'
     \<and> ''g1@g.us'' \<in> monitoredGroupsCache s' \<and> ''g1@g.us'' \<in> persistedMonitored s'
     \<and> (\<exists>d\<in>set (groups s'). groupId d = ''g1@g.us'' \<and> isMonitored d
            \<and> name d = Some ''Random Chat'')
     \<and> Log Warn \<in> set (drop (length (trace example_store)) (trace s'))"
proof -
  have n: "\<not> isTargetGroup (Some ''Random Chat'')" by code_simp
  have h: "''g1@g.us'' \<in> monitoredGroupsCache example_store \<and> ''g1@g.us'' \<noteq> []
        \<and> ''Random Chat'' \<noteq> [] \<and> \<not> isTargetGroup (Some ''Random Chat'')
        \<and> faults example_store = []"
    using n by (simp add: example_store_def del: isTargetGroup.simps)
  from monitoring_is_sticky [THEN conjunct2, THEN conjunct2, rule_format, OF h]
  show ?thesis .
qed

section \<open>The status report\<close>

lemma isTargetGroup_stored_name: "isTargetGroup (Some (or_else n [])) = isTargetGroup n"
  by (cases n) simp_all

lemma count_inactive:
  "int (length (filter P xs)) - int (length [x \<leftarrow> xs. P x \<and> Q x])
     = int (length [x \<leftarrow> xs. P x \<and> \<not> Q x])"
  by (induction xs) simp_all

lemma length_filter_conj: "length [x \<leftarrow> xs. P x \<and> Q x] \<le> length (filter P xs)"
  by (induction xs) simp_all

lemma User_count_ok:
  "faults s = [] \<Longrightarrow>
   User_count g s = Returns (int (length [u \<leftarrow> users s. u_groupId u = g])) s"
  by (simp add: User_count_def bindM_def store_call_ok)

lemma User_count_active_ok:
  "faults s = [] \<Longrightarrow>
   User_count_active g s
     = Returns (int (length [u \<leftarrow> users s. u_groupId u = g \<and> isActive u])) s"
  by (simp add: User_count_active_def bindM_def store_call_ok)

lemma statusLoop_ok:
  "faults s = [] \<Longrightarrow>
   statusLoop gs (target, forced, details) s
     = Returns (target + int (length [d \<leftarrow> gs. isTargetGroup (name d)]),
                forced + int (length [d \<leftarrow> gs. \<not> isTargetGroup (name d)]),
                details @ map (detail_of s) gs) s"
proof (induction gs arbitrary: target forced details)
  case Nil
  show ?case by (simp add: returnM_def)
next
  case (Cons g rest)
  let ?kw = "isTargetGroup (Some (or_else (name g) []))"
  let ?total = "int (length [u \<leftarrow> users s. u_groupId u = groupId g])"
  let ?active = "int (length [u \<leftarrow> users s. u_groupId u = groupId g \<and> isActive u])"
  let ?d = "\<lparr>detail_name = or_else (name g) ''Unknown group name'',
              detail_id = groupId g,
              containsTargetKeyword = ?kw,
              totalMembers = ?total,
              activeMembers = ?active,
              inactiveMembers = ?total - ?active\<rparr>"
  have d: "?d = detail_of s g"
    by (simp add: detail_of_def isTargetGroup_stored_name count_inactive del: isTargetGroup.simps)
  have "statusLoop (g # rest) (target, forced, details) s
      = statusLoop rest
         (if ?kw then target + 1 else target, if ?kw then forced else forced + 1,
          details @ [?d]) s"
    using User_count_ok [OF Cons.prems, of "groupId g"]
      User_count_active_ok [OF Cons.prems, of "groupId g"]
    by (simp add: bindM_def del: isTargetGroup.simps)
  also have "\<dots> = Returns
       ((if ?kw then target + 1 else target) + int (length [d \<leftarrow> rest. isTargetGroup (name d)]),
        (if ?kw then forced else forced + 1) + int (length [d \<leftarrow> rest. \<not> isTargetGroup (name d)]),
        (details @ [?d]) @ map (detail_of s) rest) s"
    by (rule Cons.IH [OF Cons.prems])
  finally show ?case
    unfolding d by (simp add: isTargetGroup_stored_name del: isTargetGroup.simps)
qed

lemma store_as_in_leaf:
  assumes "\<And>s'. groups (final (m s')) = groups s' \<and> users (final (m s')) = users s'
          \<and> monitoredGroupsCache (final (m s')) = monitoredGroupsCache s'"
  shows "preserves (store_as_in s) m"
  using assms unfolding preserves_def store_as_in_def by simp

lemma store_as_in_logger: "preserves (store_as_in s) (logger l)"
  by (rule store_as_in_leaf) (simp add: logger_def emit_def)

lemma store_as_in_User_count: "preserves (store_as_in s) (User_count g)"
  by (rule store_as_in_leaf)
    (auto simp: User_count_def bindM_def store_call_def split: list.splits)

lemma store_as_in_User_count_active: "preserves (store_as_in s) (User_count_active g)"
  by (rule store_as_in_leaf)
    (auto simp: User_count_active_def bindM_def store_call_def split: list.splits)

lemma store_as_in_Group_find_monitored: "preserves (store_as_in s) Group_find_monitored"
  by (rule store_as_in_leaf)
    (auto simp: Group_find_monitored_def bindM_def store_call_def split: list.splits)

lemma store_as_in_statusLoop: "preserves (store_as_in s) (statusLoop gs acc)"
proof (induction gs acc rule: statusLoop.induct)
  case (1 acc)
  show ?case by (simp add: preserves_returnM)
next
  case (2 g rest target forced details)
  show ?case
    by (subst statusLoop.simps,
        intro preserves_bindM store_as_in_User_count store_as_in_User_count_active 2)
qed

lemma store_as_in_getDatabaseStatus: "preserves (store_as_in s) getDatabaseStatus"
  unfolding getDatabaseStatus_def
  by (intro preserves_tryCatch preserves_bindM store_as_in_Group_find_monitored
      store_as_in_statusLoop preserves_case_prod preserves_returnM store_as_in_logger
      preserves_throwM)

lemma getDatabaseStatus_ok:
  assumes f: "faults s = []"
  shows "getDatabaseStatus s = Returns (status_of s) s"
proof -
  have a: "Group_find_monitored s = Returns (filter isMonitored (groups s)) s"
    using f by (simp add: Group_find_monitored_def bindM_def store_call_ok)
  have b: "statusLoop (filter isMonitored (groups s)) (0, 0, []) s
     = Returns (0 + int (length [d \<leftarrow> filter isMonitored (groups s). isTargetGroup (name d)]),
                0 + int (length [d \<leftarrow> filter isMonitored (groups s). \<not> isTargetGroup (name d)]),
                [] @ map (detail_of s) (filter isMonitored (groups s))) s"
    by (rule statusLoop_ok [OF f])
  show ?thesis
    unfolding getDatabaseStatus_def using a b
    by (simp add: tryCatch_def bindM_def returnM_def status_of_def)
qed

text \<open>
  C6. With the store answering, \<open>getDatabaseStatus\<close> returns the report
  \<open>status_of\<close> and leaves the state as it is: one entry per monitored group with its
  record count, its active count and an inactive count equal to their difference, the
  group classified by the keyword predicate on the stored name, and the groups counted
  by that classification. However the call ends, both collections and the in-memory set
  are unchanged.
\<close>

theorem getDatabaseStatus_reports:
  "(faults s = [] \<longrightarrow> getDatabaseStatus s = Returns (status_of s) s)
   \<and> (\<forall>d\<in>set (groupDetails (status_of s)).
         inactiveMembers d = totalMembers d - activeMembers d
         \<and> 0 \<le> activeMembers d \<and> activeMembers d \<le> totalMembers d)
   \<and> totalGroups (status_of s) = targetGroups (status_of s) + forceMonitoredGroups (status_of s)
   \<and> groups (final (getDatabaseStatus s)) = groups s
   \<and> users (final (getDatabaseStatus s)) = users s
   \<and> monitoredGroupsCache (final (getDatabaseStatus s)) = monitoredGroupsCache s"
proof (intro conjI impI ballI)
  assume "faults s = []"
  then show "getDatabaseStatus s = Returns (status_of s) s" by (rule getDatabaseStatus_ok)
next
  fix d assume "d \<in> set (groupDetails (status_of s))"
  then obtain g where d: "d = detail_of s g" by (auto simp: status_of_def)
  show "inactiveMembers d = totalMembers d - activeMembers d"
    unfolding d by (simp add: detail_of_def count_inactive)
  show "0 \<le> activeMembers d" unfolding d by (simp add: detail_of_def)
  have "length [u \<leftarrow> users s. u_groupId u = groupId g \<and> isActive u]
      \<le> length [u \<leftarrow> users s. u_groupId u = groupId g]"
    by (rule length_filter_conj)
  then show "activeMembers d \<le> totalMembers d" unfolding d by (simp add: detail_of_def)
next
  have "length (filter isMonitored (groups s))
      = length [d \<leftarrow> filter isMonitored (groups s). isTargetGroup (name d)]
        + length [d \<leftarrow> filter isMonitored (groups s). \<not> isTargetGroup (name d)]"
    by (rule sum_length_filter_compl [symmetric])
  then show "totalGroups (status_of s) = targetGroups (status_of s) + forceMonitoredGroups (status_of s)"
    by (simp add: status_of_def)
next
  have "store_as_in s s" by (simp add: store_as_in_def)
  from preservesD [OF store_as_in_getDatabaseStatus this]
  show "groups (final (getDatabaseStatus s)) = groups s"
    and "users (final (getDatabaseStatus s)) = users s"
    and "monitoredGroupsCache (final (getDatabaseStatus s)) = monitoredGroupsCache s"
    by (simp_all add: store_as_in_def)
qed
theorem getDatabaseStatus_reports_witness:
  "getDatabaseStatus status_example
     = Returns
         \<lparr>totalGroups = 2, targetGroups = 1, forceMonitoredGroups = 1,
          groupDetails =
            [\<lparr>detail_name = ''Neol Friends'', detail_id = ''g1@g.us'',
               containsTargetKeyword = True,
               totalMembers = 3, activeMembers = 2, inactiveMembers = 1\<rparr>,
             \<lparr>detail_name = ''Random Chat'', detail_id = ''g2@g.us'',
               containsTargetKeyword = False,
               totalMembers = 0, activeMembers = 0, inactiveMembers = 0\<rparr>]\<rparr>
         status_example"
proof -
  have k1: "isTargetGroup (Some ''Neol Friends'')" by code_simp
  have k2: "\<not> isTargetGroup (Some ''Random Chat'')" by code_simp
  have f: "faults status_example = []" by (simp add: status_example_def)
  have e: "status_of status_example =
         \<lparr>totalGroups = 2, targetGroups = 1, forceMonitoredGroups = 1,
          groupDetails =
            [\<lparr>detail_name = ''Neol Friends'', detail_id = ''g1@g.us'',
               containsTargetKeyword = True,
               totalMembers = 3, activeMembers = 2, inactiveMembers = 1\<rparr>,
             \<lparr>detail_name = ''Random Chat'', detail_id = ''g2@g.us'',
               containsTargetKeyword = False,
               totalMembers = 0, activeMembers = 0, inactiveMembers = 0\<rparr>]\<rparr>"
    using k1 k2
    by (simp add: status_of_def detail_of_def status_example_def del: isTargetGroup.simps)
  from getDatabaseStatus_reports [THEN conjunct1, rule_format, OF f] e
  show ?thesis by simp
qed

section \<open>The sync command\<close>

lemma isJidGroup_nonempty: "isJidGroup jid \<Longrightarrow> jid \<noteq> []"
  by (auto simp: isJidGroup_def)






text \<open>
  When the metadata cannot be fetched, the same message is handled to completion with
  nothing registered or written: the failure is logged and the handler returns.
\<close>

lemma sync_command_without_metadata:
  assumes "groupMetadata so jid = Inl e" and "isJidGroup jid"
    and "fromMe m" and "remoteJid m = Some jid" and "content m = Some c"
    and "or_else (conversation c) (or_else (extendedText c) []) = ''sync''"
  shows "dispatch (Some so) (MessagesUpsert [m]) s
     = Completed (s\<lparr>trace := trace s @ [Log Info, Log Error]\<rparr>)"
  using assms isJidGroup_nonempty [OF assms(2)]
  by (simp add: handleMessagesUpsert_def handleMessage_def handleSyncCommand_def
      getGroupMetadata_def tryCatch_def bindM_def returnM_def logger_def emit_def)

section \<open>Errors at the handler boundary\<close>

lemma never_throws_returnM: "never_throws (returnM x)"
  by (simp add: never_throws_def returnM_def)

lemma never_throws_Returns: "never_throws (Returns x)"
  by (simp add: never_throws_def)

lemma never_throws_emit: "never_throws (emit ev)"
  by (simp add: never_throws_def emit_def)

lemma never_throws_logger: "never_throws (logger l)"
  by (simp add: logger_def never_throws_emit)

lemma never_throws_bindM:
  assumes "never_throws m" and "\<And>x. never_throws (f x)"
  shows "never_throws (bindM m f)"
  unfolding never_throws_def
proof
  fix s
  from assms(1) obtain x s' where m: "m s = Returns x s'"
    unfolding never_throws_def by blast
  from assms(2) [of x] obtain y s'' where "f x s' = Returns y s''"
    unfolding never_throws_def by blast
  with m show "\<exists>y s''. bindM m f s = Returns y s''" by (simp add: bindM_def)
qed

lemma never_throws_tryCatch:
  assumes "\<And>e. never_throws (h e)"
  shows "never_throws (tryCatch m h)"
  unfolding never_throws_def
proof
  fix s
  show "\<exists>x s'. tryCatch m h s = Returns x s'"
  proof (cases "m s")
    case (Returns x s')
    then show ?thesis by (simp add: tryCatch_def)
  next
    case (Throws e s')
    from assms [of e] obtain y s'' where "h e s' = Returns y s''"
      unfolding never_throws_def by blast
    with Throws show ?thesis by (simp add: tryCatch_def)
  qed
qed

lemma never_throws_forEach:
  assumes "\<And>x. never_throws (body x)"
  shows "never_throws (forEach xs body)"
proof (induction xs)
  case Nil
  show ?case by (simp add: never_throws_returnM)
next
  case (Cons x xs)
  show ?case by (simp, rule never_throws_bindM) (simp_all add: assms Cons)
qed

lemma never_throws_case_option:
  "never_throws a \<Longrightarrow> (\<And>x. never_throws (b x)) \<Longrightarrow>
   never_throws (case v of None \<Rightarrow> a | Some x \<Rightarrow> b x)"
  by (cases v) simp_all

lemma never_throws_case_sum:
  "(\<And>x. never_throws (a x)) \<Longrightarrow> (\<And>x. never_throws (b x)) \<Longrightarrow>
   never_throws (case v of Inl x \<Rightarrow> a x | Inr x \<Rightarrow> b x)"
  by (cases v) simp_all

lemma never_throws_if:
  "(c \<Longrightarrow> never_throws a) \<Longrightarrow> (\<not> c \<Longrightarrow> never_throws b) \<Longrightarrow> never_throws (if c then a else b)"
  by simp

lemmas never_throws_steps =
  never_throws_bindM never_throws_tryCatch never_throws_forEach never_throws_returnM
  never_throws_logger never_throws_emit never_throws_case_option never_throws_case_sum
  never_throws_if

lemma never_throws_fetchAndMonitorTargetGroups: "never_throws (fetchAndMonitorTargetGroups sock)"
  unfolding fetchAndMonitorTargetGroups_def by (intro never_throws_steps)

lemma never_throws_handleConnectionUpdate: "never_throws (handleConnectionUpdate sock update)"
  unfolding handleConnectionUpdate_def
  by (intro never_throws_steps never_throws_fetchAndMonitorTargetGroups)

lemma never_throws_sendMessage: "never_throws (sendMessage sock to)"
  unfolding sendMessage_def by (intro never_throws_steps)

lemma never_throws_handleMessage: "never_throws (handleMessage sock m)"
  unfolding handleMessage_def handleHiCommand_def handleSyncCommand_def handleCheckCommand_def
  by (intro never_throws_steps)

lemma never_throws_handleMessagesUpsert: "never_throws (handleMessagesUpsert sock messages)"
  unfolding handleMessagesUpsert_def
  by (intro never_throws_forEach never_throws_handleMessage)

text \<open>
  The handlers of message and connection events, and the participant handler on a group
  that is not monitored, wrap their store calls in \<open>try\<close>/\<open>catch\<close>: nothing they
  raise reaches the listener.
\<close>

lemma caught_events:
  "(\<forall>e s'. dispatch sock (MessagesUpsert messages) s \<noteq> Rejected e s')
   \<and> (\<forall>e s'. dispatch sock (ConnectionUpdate update) s \<noteq> Rejected e s')
   \<and> (g \<notin> monitoredGroupsCache s \<longrightarrow>
        (\<forall>e s'. dispatch sock (GroupParticipantsUpdate g members act) s \<noteq> Rejected e s'))"
proof (intro conjI allI impI)
  fix e s'
  from never_throws_handleMessagesUpsert [of sock messages]
  obtain x t where "handleMessagesUpsert sock messages s = Returns x t"
    unfolding never_throws_def by blast
  then show "dispatch sock (MessagesUpsert messages) s \<noteq> Rejected e s'" by simp
next
  fix e s'
  from never_throws_handleConnectionUpdate [of sock update]
  obtain x t where "handleConnectionUpdate sock update s = Returns x t"
    unfolding never_throws_def by blast
  then show "dispatch sock (ConnectionUpdate update) s \<noteq> Rejected e s'"
    by (simp add: afterConnectionUpdate_def)
next
  fix e s'
  assume "g \<notin> monitoredGroupsCache s"
  then have "handleGroupParticipantsUpdate sock g members act s =
     tryCatch
        (bindM (getGroupMetadata sock g) (\<lambda>found.
           case found of
             None \<Rightarrow> returnM ()
           | Some metadata \<Rightarrow>
               if isTargetGroup (Some (subject metadata))
               then bindM (logger Info) (\<lambda>_.
                    bindM (addGroupToMonitored g (Some (subject metadata))) (\<lambda>_.
                    bindM (syncGroupMembers g (participants metadata)) (\<lambda>_.
                    bindM (logger Success) (\<lambda>_.
                      applyParticipantAction g members act))))
               else logger Info))
        (\<lambda>e. logger Error) s"
    by (simp add: handleGroupParticipantsUpdate_def isMonitoredGroup_def
        del: isTargetGroup.simps)
  moreover have "never_throws (tryCatch
        (bindM (getGroupMetadata sock g) (\<lambda>found.
           case found of
             None \<Rightarrow> returnM ()
           | Some metadata \<Rightarrow>
               if isTargetGroup (Some (subject metadata))
               then bindM (logger Info) (\<lambda>_.
                    bindM (addGroupToMonitored g (Some (subject metadata))) (\<lambda>_.
                    bindM (syncGroupMembers g (participants metadata)) (\<lambda>_.
                    bindM (logger Success) (\<lambda>_.
                      applyParticipantAction g members act))))
               else logger Info))
        (\<lambda>e. logger Error))"
    by (intro never_throws_steps)
  ultimately obtain x t where "handleGroupParticipantsUpdate sock g members act s = Returns x t"
    unfolding never_throws_def by metis
  then show "dispatch sock (GroupParticipantsUpdate g members act) s \<noteq> Rejected e s'" by simp
qed

text \<open>
  C8. A participant-add event for a monitored group, handled while the store refuses the
  write: \<open>handleMembersAdded\<close> logs the error and throws it again, and neither the
  monitored branch of the controller's handler nor the listener catches it, so the
  dispatch ends with the error escaping instead of returning normally.
\<close>

theorem store_error_escapes_participants_update:
  "dispatch (Some example_socket) (GroupParticipantsUpdate ''g1@g.us'' [''333''] Add)
     (example_store\<lparr>faults := [True]\<rparr>)
   = Rejected StoreError
       (example_store\<lparr>clock := 2, faults := [], trace := [Log Info, Log Error]\<rparr>)"
  by (simp add: handleGroupParticipantsUpdate_def applyParticipantAction_def
      handleMembersAdded_def isMonitoredGroup_def tryCatch_def bindM_def returnM_def throwM_def
      logger_def emit_def new_Date_def store_call_def User_upsert_active_def example_store_def)

text \<open>
  The same escape on the rename of a monitored group and on the addition to a new group
  whose name matches the keyword.
\<close>

lemma store_error_escapes_groups_update:
  "dispatch (Some example_socket)
     (GroupsUpdate [\<lparr>update_id = Some ''g1@g.us'', update_subject = Some ''Neol Crew''\<rparr>])
     (example_store\<lparr>faults := [True]\<rparr>)
   = Rejected StoreError
       (example_store\<lparr>clock := 2, faults := [], trace := [Log Info, Log Error]\<rparr>)"
  by (simp add: handleGroupsUpdate_def handleGroupUpdate_def addGroupToMonitored_def
      Group_upsert_monitored_def isMonitoredGroup_def tryCatch_def bindM_def returnM_def
      throwM_def logger_def emit_def new_Date_def store_call_def example_store_def)

lemma store_error_escapes_groups_upsert:
  "dispatch (Some example_socket)
     (GroupsUpsert [\<lparr>new_id = ''g3@g.us'', new_subject = Some ''neol'', new_participants = None\<rparr>])
     (example_store\<lparr>faults := [True]\<rparr>)
   = Rejected StoreError
       (example_store\<lparr>clock := 2, faults := [],
          trace := [Log Info, Log Info, Log Error]\<rparr>)"
proof -
  have k: "isTargetGroup (Some ''neol'')" by code_simp
  show ?thesis
    using k
    by (simp add: handleGroupsUpsert_def addGroupToMonitored_def
        Group_upsert_monitored_def isMonitoredGroup_def tryCatch_def bindM_def returnM_def
        throwM_def logger_def emit_def new_Date_def store_call_def example_store_def
        del: isTargetGroup.simps)
qed

end
